theory Spec2Isabelle
  imports Main
begin

section \<open>Data model of \<^verbatim>\<open>set.go\<close>\<close>

text \<open>
  The Go program is a red-black tree whose nodes are linked by \<^verbatim>\<open>left\<close>, \<^verbatim>\<open>right\<close> and
  \<^verbatim>\<open>parent\<close> pointers and are mutated in place. Nodes live in an explicit store: an address
  is a natural number, a \<^verbatim>\<open>*node[T]\<close> is an \<open>addr option\<close> (\<open>None\<close> is \<^verbatim>\<open>nil\<close>), and the
  store maps every address to a node record. Go is memory safe, so a non-nil pointer always
  designates a node. The run-time failures of the program are the dereference of
  \<^verbatim>\<open>nil\<close>, which panics (the error value \<open>NilDeref\<close>), and in \<^verbatim>\<open>All\<close> a call of
  \<^verbatim>\<open>make\<close> with a negative capacity (\<open>CapOutOfRange\<close>).

  The element type \<^verbatim>\<open>T Ordered\<close> is a type of class \<open>linorder\<close>: integers and strings are
  ordered totally by \<^verbatim>\<open><\<close>. (Floating-point NaN, for which neither \<^verbatim>\<open>x < y\<close> nor
  \<^verbatim>\<open>x > y\<close> holds, is outside this model.)
  The field \<^verbatim>\<open>size\<close> is a Go \<^verbatim>\<open>int\<close> (64 bits); it counts allocated nodes and cannot wrap
  before memory is exhausted, so it is an unbounded \<open>int\<close> here.
\<close>

type_synonym addr = nat

datatype error = NilDeref | CapOutOfRange

abbreviation red :: bool where "red \<equiv> True"
abbreviation black :: bool where "black \<equiv> False"

record 'a node =
  val :: 'a
  color :: bool
  left :: "addr option"
  right :: "addr option"
  parent :: "addr option"

text \<open>
  \<open>nxt\<close> is the allocator: \<^verbatim>\<open>&node[T]{...}\<close> returns the address \<open>nxt\<close>, which no live
  pointer holds, and advances it. Memory that was never allocated holds zeroed nodes, as Go
  memory does; \<open>z\<close> stands for the zero value of \<^verbatim>\<open>T\<close>.
\<close>

record 'a Set =
  root :: "addr option"
  size_s :: int
  heap :: "addr \<Rightarrow> 'a node"
  nxt :: addr

definition New :: "'a \<Rightarrow> 'a Set" where
  "New z = \<lparr>root = None, size_s = 0,
            heap = (\<lambda>_. \<lparr>val = z, color = black, left = None, right = None, parent = None\<rparr>),
            nxt = 0\<rparr>"

definition Len :: "'a Set \<Rightarrow> int" where
  "Len s = size_s s"

subsection \<open>Field assignments\<close>

definition set_color :: "addr \<Rightarrow> bool \<Rightarrow> 'a Set \<Rightarrow> 'a Set" where
  "set_color a c s = s\<lparr>heap := (heap s)(a := (heap s a)\<lparr>color := c\<rparr>)\<rparr>"

definition set_left :: "addr \<Rightarrow> addr option \<Rightarrow> 'a Set \<Rightarrow> 'a Set" where
  "set_left a p s = s\<lparr>heap := (heap s)(a := (heap s a)\<lparr>left := p\<rparr>)\<rparr>"

definition set_right :: "addr \<Rightarrow> addr option \<Rightarrow> 'a Set \<Rightarrow> 'a Set" where
  "set_right a p s = s\<lparr>heap := (heap s)(a := (heap s a)\<lparr>right := p\<rparr>)\<rparr>"

definition set_parent :: "addr \<Rightarrow> addr option \<Rightarrow> 'a Set \<Rightarrow> 'a Set" where
  "set_parent a p s = s\<lparr>heap := (heap s)(a := (heap s a)\<lparr>parent := p\<rparr>)\<rparr>"

text \<open>\<^verbatim>\<open>p == nil || p.color == black\<close>\<close>

definition nil_or_black :: "'a Set \<Rightarrow> addr option \<Rightarrow> bool" where
  "nil_or_black s p = (case p of None \<Rightarrow> True | Some a \<Rightarrow> color (heap s a) = black)"

section \<open>Queries\<close>

text \<open>
  Every loop of the program follows pointers of the store, and on a store with a cycle it
  would not end: the loops are partial functions, \<open>None\<close> meaning that the loop does not
  return. A result \<open>Some (Inl NilDeref)\<close> is a panic, \<open>Some (Inr r)\<close> a normal return.
\<close>

partial_function (option) contains_loop :: "'a::linorder Set \<Rightarrow> 'a \<Rightarrow> addr option \<Rightarrow> bool option" where
  "contains_loop s x n =
     (case n of None \<Rightarrow> Some False
      | Some a \<Rightarrow>
          if x < val (heap s a) then contains_loop s x (left (heap s a))
          else if x > val (heap s a) then contains_loop s x (right (heap s a))
          else Some True)"

declare contains_loop.simps [code]

definition Contains :: "'a::linorder Set \<Rightarrow> 'a \<Rightarrow> bool option" where
  "Contains s x = contains_loop s x (root s)"

partial_function (option) minNode :: "'a Set \<Rightarrow> addr \<Rightarrow> addr option" where
  "minNode s n = (case left (heap s n) of None \<Rightarrow> Some n | Some l \<Rightarrow> minNode s l)"

declare minNode.simps [code]

partial_function (option) maxNode :: "'a Set \<Rightarrow> addr \<Rightarrow> addr option" where
  "maxNode s n = (case right (heap s n) of None \<Rightarrow> Some n | Some r \<Rightarrow> maxNode s r)"

declare maxNode.simps [code]

text \<open>\<^verbatim>\<open>Min\<close> and \<^verbatim>\<open>Max\<close> return the pair \<^verbatim>\<open>(T, bool)\<close>; \<open>z\<close> is the zero value of \<^verbatim>\<open>T\<close>.\<close>

definition Min_s :: "'a \<Rightarrow> 'a Set \<Rightarrow> ('a \<times> bool) option" where
  "Min_s z s =
     (case root s of None \<Rightarrow> Some (z, False)
      | Some r \<Rightarrow> (case minNode s r of None \<Rightarrow> None | Some m \<Rightarrow> Some (val (heap s m), True)))"

definition Max_s :: "'a \<Rightarrow> 'a Set \<Rightarrow> ('a \<times> bool) option" where
  "Max_s z s =
     (case root s of None \<Rightarrow> Some (z, False)
      | Some r \<Rightarrow> (case maxNode s r of None \<Rightarrow> None | Some m \<Rightarrow> Some (val (heap s m), True)))"

text \<open>
  \<^verbatim>\<open>All\<close>: the in-order walk with an explicit stack, the top of the stack being the last
  element of the slice. The list \<open>out\<close> collects the values handed to \<^verbatim>\<open>yield\<close> by a consumer
  that never stops the iteration; a consumer that stops early sees a prefix of it.
\<close>

partial_function (option) all_loop ::
  "'a Set \<Rightarrow> addr list \<Rightarrow> addr option \<Rightarrow> 'a list \<Rightarrow> 'a list option" where
  "all_loop s stack n out =
     (if stack \<noteq> [] \<or> n \<noteq> None then
        (case n of
           Some a \<Rightarrow> all_loop s (stack @ [a]) (left (heap s a)) out
         | None \<Rightarrow>
             (let a = last stack
              in all_loop s (butlast stack) (right (heap s a)) (out @ [val (heap s a)])))
      else Some out)"

declare all_loop.simps [code]

text \<open>
  The slice is made by \<^verbatim>\<open>make([]*node[T], 0, maxSize)\<close> with
  \<^verbatim>\<open>maxSize := int(math.Floor(math.Log2(float64(s.size+2)/float64(5))) + 2)\<close>, and
  \<^verbatim>\<open>make\<close> panics when the capacity is negative. When \<^verbatim>\<open>size\<close> is not negative the
  quotient is at least \<open>2/5\<close>, which is more than \<open>1/4\<close>, so the logarithm is more than
  \<open>-2\<close> and \<^verbatim>\<open>maxSize\<close> is not negative. When \<^verbatim>\<open>size\<close> is \<open>-1\<close> the quotient is \<open>1/5\<close>
  and \<^verbatim>\<open>maxSize\<close> is \<open>-1\<close>. Below that the logarithm is \<^verbatim>\<open>-Inf\<close> or \<^verbatim>\<open>NaN\<close>, whose
  conversion to \<^verbatim>\<open>int\<close> depends on the machine (the least \<^verbatim>\<open>int\<close> on amd64); the model
  takes the panic there too. The capacity has no other effect: \<^verbatim>\<open>append\<close> grows the
  slice.
\<close>

definition All_s :: "'a Set \<Rightarrow> (error + 'a list) option" where
  "All_s s =
     (if size_s s < 0 then Some (Inl CapOutOfRange)
      else (case all_loop s [] (root s) [] of None \<Rightarrow> None | Some out \<Rightarrow> Some (Inr out)))"

section \<open>Rotations and transplant\<close>

definition leftRotate :: "'a Set \<Rightarrow> addr \<Rightarrow> error + 'a Set" where
  "leftRotate s x =
     (case right (heap s x) of None \<Rightarrow> Inl NilDeref
      | Some y \<Rightarrow>
          (let s1 = set_right x (left (heap s y)) s;
               s2 = (case left (heap s1 y) of None \<Rightarrow> s1 | Some yl \<Rightarrow> set_parent yl (Some x) s1);
               s3 = set_parent y (parent (heap s2 x)) s2;
               s4 = (case parent (heap s3 x) of
                       None \<Rightarrow> s3\<lparr>root := Some y\<rparr>
                     | Some xp \<Rightarrow>
                         if Some x = left (heap s3 xp) then set_left xp (Some y) s3
                         else set_right xp (Some y) s3);
               s5 = set_left y (Some x) s4
           in Inr (set_parent x (Some y) s5)))"

definition rightRotate :: "'a Set \<Rightarrow> addr \<Rightarrow> error + 'a Set" where
  "rightRotate s x =
     (case left (heap s x) of None \<Rightarrow> Inl NilDeref
      | Some y \<Rightarrow>
          (let s1 = set_left x (right (heap s y)) s;
               s2 = (case right (heap s1 y) of None \<Rightarrow> s1 | Some yr \<Rightarrow> set_parent yr (Some x) s1);
               s3 = set_parent y (parent (heap s2 x)) s2;
               s4 = (case parent (heap s3 x) of
                       None \<Rightarrow> s3\<lparr>root := Some y\<rparr>
                     | Some xp \<Rightarrow>
                         if Some x = right (heap s3 xp) then set_right xp (Some y) s3
                         else set_left xp (Some y) s3);
               s5 = set_right y (Some x) s4
           in Inr (set_parent x (Some y) s5)))"

definition rbTransplant :: "'a Set \<Rightarrow> addr \<Rightarrow> addr option \<Rightarrow> 'a Set" where
  "rbTransplant s u v =
     (let s1 = (case parent (heap s u) of
                  None \<Rightarrow> s\<lparr>root := v\<rparr>
                | Some up \<Rightarrow>
                    if Some u = left (heap s up) then set_left up v s else set_right up v s)
      in case v of None \<Rightarrow> s1 | Some va \<Rightarrow> set_parent va (parent (heap s1 u)) s1)"

section \<open>Insert\<close>

text \<open>
  The end of both branches of \<^verbatim>\<open>insertFixup\<close> when the uncle is black:
  \<^verbatim>\<open>z.parent.color = black; z.parent.parent.color = red; s.rightRotate(z.parent.parent)\<close>,
  and the same with \<^verbatim>\<open>leftRotate\<close>.
\<close>

definition recolor_rotate_right :: "'a Set \<Rightarrow> addr \<Rightarrow> error + ('a Set \<times> addr)" where
  "recolor_rotate_right s z =
     (case parent (heap s z) of None \<Rightarrow> Inl NilDeref
      | Some p \<Rightarrow>
          (let s1 = set_color p black s
           in case parent (heap s1 p) of None \<Rightarrow> Inl NilDeref
              | Some g \<Rightarrow>
                  (case rightRotate (set_color g red s1) g of
                     Inl e \<Rightarrow> Inl e
                   | Inr s2 \<Rightarrow> Inr (s2, z))))"

definition recolor_rotate_left :: "'a Set \<Rightarrow> addr \<Rightarrow> error + ('a Set \<times> addr)" where
  "recolor_rotate_left s z =
     (case parent (heap s z) of None \<Rightarrow> Inl NilDeref
      | Some p \<Rightarrow>
          (let s1 = set_color p black s
           in case parent (heap s1 p) of None \<Rightarrow> Inl NilDeref
              | Some g \<Rightarrow>
                  (case leftRotate (set_color g red s1) g of
                     Inl e \<Rightarrow> Inl e
                   | Inr s2 \<Rightarrow> Inr (s2, z))))"

text \<open>
  One iteration of the loop of \<^verbatim>\<open>insertFixup\<close>, entered when \<^verbatim>\<open>z.parent\<close> is a red
  node \<open>zp\<close>. The result carries the next value of \<^verbatim>\<open>z\<close>. Colour assignments change no
  pointer, so \<^verbatim>\<open>z.parent\<close> and \<^verbatim>\<open>z.parent.parent\<close> are read once in the branch of the
  red uncle; after a rotation they are read again.
\<close>

definition insertFixup_body :: "'a Set \<Rightarrow> addr \<Rightarrow> addr \<Rightarrow> error + ('a Set \<times> addr)" where
  "insertFixup_body s z zp =
     (case parent (heap s zp) of None \<Rightarrow> Inl NilDeref
      | Some zpp \<Rightarrow>
          if Some zp = left (heap s zpp) then
            (let y = right (heap s zpp)
             in if \<not> nil_or_black s y then
                  (case y of None \<Rightarrow> Inl NilDeref
                   | Some ya \<Rightarrow>
                       Inr (set_color zpp red (set_color ya black (set_color zp black s)), zpp))
                else if Some z = right (heap s zp) then
                  (case leftRotate s zp of Inl e \<Rightarrow> Inl e
                   | Inr s1 \<Rightarrow> recolor_rotate_right s1 zp)
                else recolor_rotate_right s z)
          else
            (let y = left (heap s zpp)
             in if \<not> nil_or_black s y then
                  (case y of None \<Rightarrow> Inl NilDeref
                   | Some ya \<Rightarrow>
                       Inr (set_color zpp red (set_color ya black (set_color zp black s)), zpp))
                else if Some z = left (heap s zp) then
                  (case rightRotate s zp of Inl e \<Rightarrow> Inl e
                   | Inr s1 \<Rightarrow> recolor_rotate_left s1 zp)
                else recolor_rotate_left s z))"

text \<open>The loop, and after it \<^verbatim>\<open>s.root.color = black\<close>.\<close>

partial_function (option) insertFixup :: "'a Set \<Rightarrow> addr \<Rightarrow> (error + 'a Set) option" where
  "insertFixup s z =
     (case parent (heap s z) of
        None \<Rightarrow>
          (case root s of None \<Rightarrow> Some (Inl NilDeref) | Some r \<Rightarrow> Some (Inr (set_color r black s)))
      | Some zp \<Rightarrow>
          if color (heap s zp) = red then
            (case insertFixup_body s z zp of
               Inl e \<Rightarrow> Some (Inl e)
             | Inr (s1, z1) \<Rightarrow> insertFixup s1 z1)
          else
            (case root s of None \<Rightarrow> Some (Inl NilDeref) | Some r \<Rightarrow> Some (Inr (set_color r black s))))"

declare insertFixup.simps [code]

text \<open>
  The descent of \<^verbatim>\<open>Insert\<close>: the result is \<open>None\<close> when \<open>x\<close> is found (the early
  \<^verbatim>\<open>return\<close>), and otherwise the last node visited, \<^verbatim>\<open>parent\<close>.
\<close>

partial_function (option) insert_loop ::
  "'a::linorder Set \<Rightarrow> 'a \<Rightarrow> addr option \<Rightarrow> addr option \<Rightarrow> addr option option option" where
  "insert_loop s x par n =
     (case n of None \<Rightarrow> Some (Some par)
      | Some a \<Rightarrow>
          if x < val (heap s a) then insert_loop s x (Some a) (left (heap s a))
          else if x > val (heap s a) then insert_loop s x (Some a) (right (heap s a))
          else Some None)"

declare insert_loop.simps [code]

definition newNode :: "'a Set \<Rightarrow> 'a \<Rightarrow> addr option \<Rightarrow> 'a Set" where
  "newNode s x par =
     s\<lparr>heap := (heap s)(nxt s := \<lparr>val = x, color = red, left = None, right = None, parent = par\<rparr>),
       nxt := Suc (nxt s)\<rparr>"

definition Insert :: "'a::linorder Set \<Rightarrow> 'a \<Rightarrow> (error + 'a Set) option" where
  "Insert s x =
     (case insert_loop s x None (root s) of
        None \<Rightarrow> None
      | Some None \<Rightarrow> Some (Inr s)
      | Some (Some par) \<Rightarrow>
          (let n = nxt s;
               s1 = newNode s x par;
               s2 = (case par of
                       None \<Rightarrow> s1\<lparr>root := Some n\<rparr>
                     | Some p \<Rightarrow>
                         if x < val (heap s1 p) then set_left p (Some n) s1
                         else set_right p (Some n) s1)
           in case insertFixup s2 n of
                None \<Rightarrow> None
              | Some (Inl e) \<Rightarrow> Some (Inl e)
              | Some (Inr s3) \<Rightarrow> Some (Inr (s3\<lparr>size_s := size_s s3 + 1\<rparr>))))"

section \<open>Remove\<close>

text \<open>
  One iteration of the loop of \<^verbatim>\<open>deleteFixup\<close> for \<^verbatim>\<open>x == x.parent.left\<close>, in the
  four steps of the source. The sibling \<^verbatim>\<open>w\<close> is dereferenced without a \<^verbatim>\<open>nil\<close> test.

  The red sibling: \<^verbatim>\<open>w.color = black; x.parent.color = red; s.leftRotate(x.parent);
  w = x.parent.right\<close>. The result is the new \<^verbatim>\<open>x.parent\<close> and the new \<^verbatim>\<open>w\<close>.
\<close>

definition deleteFixup_left_red :: "'a Set \<Rightarrow> addr \<Rightarrow> addr \<Rightarrow> addr \<Rightarrow> error + ('a Set \<times> addr \<times> addr option)" where
  "deleteFixup_left_red s x xp w =
     (case leftRotate (set_color xp red (set_color w black s)) xp of
        Inl e \<Rightarrow> Inl e
      | Inr s1 \<Rightarrow>
          (case parent (heap s1 x) of None \<Rightarrow> Inl NilDeref
           | Some xp1 \<Rightarrow> Inr (s1, xp1, right (heap s1 xp1))))"

text \<open>
  The black sibling with a black right child:
  \<^verbatim>\<open>if w.left != nil { w.left.color = black }; w.color = red; s.rightRotate(w);
  w = x.parent.right\<close>.
\<close>

definition deleteFixup_left_near :: "'a Set \<Rightarrow> addr \<Rightarrow> addr \<Rightarrow> error + ('a Set \<times> addr \<times> addr option)" where
  "deleteFixup_left_near s x w =
     (let s1 = (case left (heap s w) of None \<Rightarrow> s | Some wl \<Rightarrow> set_color wl black s)
      in case rightRotate (set_color w red s1) w of
           Inl e \<Rightarrow> Inl e
         | Inr s2 \<Rightarrow>
             (case parent (heap s2 x) of None \<Rightarrow> Inl NilDeref
              | Some xp2 \<Rightarrow> Inr (s2, xp2, right (heap s2 xp2))))"

text \<open>
  The last step: \<^verbatim>\<open>w.color = x.parent.color; x.parent.color = black;
  if w.right != nil { w.right.color = black }; s.leftRotate(x.parent); x = s.root\<close>.
\<close>

definition deleteFixup_left_far :: "'a Set \<Rightarrow> addr \<Rightarrow> addr \<Rightarrow> error + ('a Set \<times> addr option)" where
  "deleteFixup_left_far s xp w =
     (let s1 = set_color w (color (heap s xp)) s;
          s2 = set_color xp black s1;
          s3 = (case right (heap s2 w) of None \<Rightarrow> s2 | Some wr \<Rightarrow> set_color wr black s2)
      in case leftRotate s3 xp of
           Inl e \<Rightarrow> Inl e
         | Inr s4 \<Rightarrow> Inr (s4, root s4))"

text \<open>
  The steps after the red sibling is dealt with, from
  \<^verbatim>\<open>if (w.left == nil || w.left.color == black) && (w.right == nil || w.right.color == black)\<close>
  on; \<open>w\<close> is the pointer \<^verbatim>\<open>w\<close>, which the test dereferences.
\<close>

definition deleteFixup_left_black :: "'a Set \<Rightarrow> addr \<Rightarrow> addr \<Rightarrow> addr option \<Rightarrow> error + ('a Set \<times> addr option)" where
  "deleteFixup_left_black s x xp w =
     (case w of None \<Rightarrow> Inl NilDeref
      | Some wa \<Rightarrow>
          if nil_or_black s (left (heap s wa)) \<and> nil_or_black s (right (heap s wa))
          then Inr (set_color wa red s, Some xp)
          else
            (case (if nil_or_black s (right (heap s wa))
                   then deleteFixup_left_near s x wa
                   else Inr (s, xp, Some wa)) of
               Inl e \<Rightarrow> Inl e
             | Inr (s2, xp2, w2) \<Rightarrow>
                 (case w2 of None \<Rightarrow> Inl NilDeref
                  | Some w2a \<Rightarrow> deleteFixup_left_far s2 xp2 w2a)))"

definition deleteFixup_left :: "'a Set \<Rightarrow> addr \<Rightarrow> addr \<Rightarrow> error + ('a Set \<times> addr option)" where
  "deleteFixup_left s x xp =
     (case right (heap s xp) of None \<Rightarrow> Inl NilDeref
      | Some w \<Rightarrow>
          (case (if color (heap s w) = red then deleteFixup_left_red s x xp w
                 else Inr (s, xp, Some w)) of
             Inl e \<Rightarrow> Inl e
           | Inr (s1, xp1, w1) \<Rightarrow> deleteFixup_left_black s1 x xp1 w1))"

text \<open>The mirror image, for \<^verbatim>\<open>x == x.parent.right\<close>.\<close>

definition deleteFixup_right_red :: "'a Set \<Rightarrow> addr \<Rightarrow> addr \<Rightarrow> addr \<Rightarrow> error + ('a Set \<times> addr \<times> addr option)" where
  "deleteFixup_right_red s x xp w =
     (case rightRotate (set_color xp red (set_color w black s)) xp of
        Inl e \<Rightarrow> Inl e
      | Inr s1 \<Rightarrow>
          (case parent (heap s1 x) of None \<Rightarrow> Inl NilDeref
           | Some xp1 \<Rightarrow> Inr (s1, xp1, left (heap s1 xp1))))"

definition deleteFixup_right_near :: "'a Set \<Rightarrow> addr \<Rightarrow> addr \<Rightarrow> error + ('a Set \<times> addr \<times> addr option)" where
  "deleteFixup_right_near s x w =
     (let s1 = (case right (heap s w) of None \<Rightarrow> s | Some wr \<Rightarrow> set_color wr black s)
      in case leftRotate (set_color w red s1) w of
           Inl e \<Rightarrow> Inl e
         | Inr s2 \<Rightarrow>
             (case parent (heap s2 x) of None \<Rightarrow> Inl NilDeref
              | Some xp2 \<Rightarrow> Inr (s2, xp2, left (heap s2 xp2))))"

definition deleteFixup_right_far :: "'a Set \<Rightarrow> addr \<Rightarrow> addr \<Rightarrow> error + ('a Set \<times> addr option)" where
  "deleteFixup_right_far s xp w =
     (let s1 = set_color w (color (heap s xp)) s;
          s2 = set_color xp black s1;
          s3 = (case left (heap s2 w) of None \<Rightarrow> s2 | Some wl \<Rightarrow> set_color wl black s2)
      in case rightRotate s3 xp of
           Inl e \<Rightarrow> Inl e
         | Inr s4 \<Rightarrow> Inr (s4, root s4))"

definition deleteFixup_right_black :: "'a Set \<Rightarrow> addr \<Rightarrow> addr \<Rightarrow> addr option \<Rightarrow> error + ('a Set \<times> addr option)" where
  "deleteFixup_right_black s x xp w =
     (case w of None \<Rightarrow> Inl NilDeref
      | Some wa \<Rightarrow>
          if nil_or_black s (right (heap s wa)) \<and> nil_or_black s (left (heap s wa))
          then Inr (set_color wa red s, Some xp)
          else
            (case (if nil_or_black s (left (heap s wa))
                   then deleteFixup_right_near s x wa
                   else Inr (s, xp, Some wa)) of
               Inl e \<Rightarrow> Inl e
             | Inr (s2, xp2, w2) \<Rightarrow>
                 (case w2 of None \<Rightarrow> Inl NilDeref
                  | Some w2a \<Rightarrow> deleteFixup_right_far s2 xp2 w2a)))"

definition deleteFixup_right :: "'a Set \<Rightarrow> addr \<Rightarrow> addr \<Rightarrow> error + ('a Set \<times> addr option)" where
  "deleteFixup_right s x xp =
     (case left (heap s xp) of None \<Rightarrow> Inl NilDeref
      | Some w \<Rightarrow>
          (case (if color (heap s w) = red then deleteFixup_right_red s x xp w
                 else Inr (s, xp, Some w)) of
             Inl e \<Rightarrow> Inl e
           | Inr (s1, xp1, w1) \<Rightarrow> deleteFixup_right_black s1 x xp1 w1))"

text \<open>
  The loop \<^verbatim>\<open>for x != s.root && x.color == black\<close>, and after it \<^verbatim>\<open>x.color = black\<close>.
  The variable \<^verbatim>\<open>x\<close> is a pointer; both the loop test and the final assignment dereference
  it.
\<close>

partial_function (option) deleteFixup :: "'a Set \<Rightarrow> addr option \<Rightarrow> (error + 'a Set) option" where
  "deleteFixup s x =
     (case x of None \<Rightarrow> Some (Inl NilDeref)
      | Some xa \<Rightarrow>
          if x \<noteq> root s \<and> color (heap s xa) = black then
            (case parent (heap s xa) of None \<Rightarrow> Some (Inl NilDeref)
             | Some xp \<Rightarrow>
                 (case (if x = left (heap s xp) then deleteFixup_left s xa xp
                        else deleteFixup_right s xa xp) of
                    Inl e \<Rightarrow> Some (Inl e)
                  | Inr (s1, x1) \<Rightarrow> deleteFixup s1 x1))
          else Some (Inr (set_color xa black s)))"

declare deleteFixup.simps [code]

text \<open>
  \<^verbatim>\<open>deleteNode\<close>. The fix-up runs only when the removed colour is black and the node \<^verbatim>\<open>x\<close>
  that moved into the place is not \<^verbatim>\<open>nil\<close>.
\<close>

definition deleteNode_finish :: "'a Set \<Rightarrow> bool \<Rightarrow> addr option \<Rightarrow> (error + 'a Set) option" where
  "deleteNode_finish s originalColor x =
     (let s1 = s\<lparr>size_s := size_s s - 1\<rparr>
      in if originalColor = black \<and> x \<noteq> None then deleteFixup s1 x else Some (Inr s1))"

text \<open>
  The successor \<open>y\<close> of a node \<open>z\<close> with two children is taken out of its place, with
  \<^verbatim>\<open>x = y.right\<close>:
  \<^verbatim>\<open>if y.parent == z { if x != nil { x.parent = y } }
  else { s.rbTransplant(y, y.right); y.right = z.right; y.right.parent = y }\<close>.
\<close>

definition deleteNode_detach :: "'a Set \<Rightarrow> addr \<Rightarrow> addr \<Rightarrow> error + 'a Set" where
  "deleteNode_detach s z y =
     (if parent (heap s y) = Some z then
        Inr (case right (heap s y) of None \<Rightarrow> s | Some xa \<Rightarrow> set_parent xa (Some y) s)
      else
        (let s1 = rbTransplant s y (right (heap s y));
             s2 = set_right y (right (heap s1 z)) s1
         in case right (heap s2 y) of None \<Rightarrow> Inl NilDeref
            | Some yr \<Rightarrow> Inr (set_parent yr (Some y) s2)))"

text \<open>
  Then \<open>y\<close> takes the place of \<open>z\<close>:
  \<^verbatim>\<open>s.rbTransplant(z, y); y.left = z.left; y.left.parent = y; y.color = z.color\<close>.
\<close>

definition deleteNode_replace :: "'a Set \<Rightarrow> addr \<Rightarrow> addr \<Rightarrow> error + 'a Set" where
  "deleteNode_replace s z y =
     (let s1 = rbTransplant s z (Some y);
          s2 = set_left y (left (heap s1 z)) s1
      in case left (heap s2 y) of None \<Rightarrow> Inl NilDeref
         | Some yl \<Rightarrow>
             (let s3 = set_parent yl (Some y) s2
              in Inr (set_color y (color (heap s3 z)) s3)))"

definition deleteNode :: "'a Set \<Rightarrow> addr \<Rightarrow> (error + 'a Set) option" where
  "deleteNode s z =
     (if left (heap s z) = None then
        deleteNode_finish (rbTransplant s z (right (heap s z))) (color (heap s z)) (right (heap s z))
      else if right (heap s z) = None then
        deleteNode_finish (rbTransplant s z (left (heap s z))) (color (heap s z)) (left (heap s z))
      else
        (case right (heap s z) of None \<Rightarrow> Some (Inl NilDeref)
         | Some zr \<Rightarrow>
             (case minNode s zr of None \<Rightarrow> None
              | Some y \<Rightarrow>
                  (let originalColor = color (heap s y);
                       x = right (heap s y)
                   in case deleteNode_detach s z y of
                        Inl e \<Rightarrow> Some (Inl e)
                      | Inr s1 \<Rightarrow>
                          (case deleteNode_replace s1 z y of
                             Inl e \<Rightarrow> Some (Inl e)
                           | Inr s2 \<Rightarrow> deleteNode_finish s2 originalColor x)))))"

partial_function (option) remove_loop ::
  "'a::linorder Set \<Rightarrow> 'a \<Rightarrow> addr option \<Rightarrow> (error + 'a Set) option" where
  "remove_loop s x z =
     (case z of None \<Rightarrow> Some (Inr s)
      | Some a \<Rightarrow>
          if x < val (heap s a) then remove_loop s x (left (heap s a))
          else if x > val (heap s a) then remove_loop s x (right (heap s a))
          else deleteNode s a)"

declare remove_loop.simps [code]

definition Remove :: "'a::linorder Set \<Rightarrow> 'a \<Rightarrow> (error + 'a Set) option" where
  "Remove s x = remove_loop s x (root s)"

section \<open>Sequences of operations\<close>

text \<open>
  A client program is a list of calls on one set. A panic ends the program, so the calls
  after it are not run. The queries leave the set as it is.
\<close>

datatype 'a op = Ins 'a | Rem 'a | Has 'a | OpMin | OpMax | OpAll

fun exec :: "'a::linorder \<Rightarrow> 'a Set \<Rightarrow> 'a op \<Rightarrow> (error + 'a Set) option" where
  "exec z s (Ins x) = Insert s x"
| "exec z s (Rem x) = Remove s x"
| "exec z s (Has x) = (case Contains s x of None \<Rightarrow> None | Some b \<Rightarrow> Some (Inr s))"
| "exec z s OpMin = (case Min_s z s of None \<Rightarrow> None | Some r \<Rightarrow> Some (Inr s))"
| "exec z s OpMax = (case Max_s z s of None \<Rightarrow> None | Some r \<Rightarrow> Some (Inr s))"
| "exec z s OpAll =
     (case All_s s of None \<Rightarrow> None | Some (Inl e) \<Rightarrow> Some (Inl e) | Some (Inr r) \<Rightarrow> Some (Inr s))"

fun run :: "'a::linorder \<Rightarrow> 'a Set \<Rightarrow> 'a op list \<Rightarrow> (error + 'a Set) option" where
  "run z s [] = Some (Inr s)"
| "run z s (o1 # os) =
     (case exec z s o1 of
        None \<Rightarrow> None
      | Some (Inl e) \<Rightarrow> Some (Inl e)
      | Some (Inr s1) \<Rightarrow> run z s1 os)"

text \<open>
  The set of values that a list of calls leaves in a mathematical set: the values inserted
  and not removed since.
\<close>

fun apply_ops :: "'a set \<Rightarrow> 'a op list \<Rightarrow> 'a set" where
  "apply_ops S [] = S"
| "apply_ops S (Ins x # os) = apply_ops (insert x S) os"
| "apply_ops S (Rem x # os) = apply_ops (S - {x}) os"
| "apply_ops S (Has x # os) = apply_ops S os"
| "apply_ops S (OpMin # os) = apply_ops S os"
| "apply_ops S (OpMax # os) = apply_ops S os"
| "apply_ops S (OpAll # os) = apply_ops S os"

section \<open>The tree that a store represents\<close>

text \<open>
  The shape of the linked structure is a binary tree of addresses. \<open>tr h par t\<close> says
  that in the store \<open>h\<close> every node of the tree \<open>t\<close> has the \<^verbatim>\<open>left\<close> and \<^verbatim>\<open>right\<close>
  pointers of the tree (\<^verbatim>\<open>nil\<close> where the tree has no child) and a \<^verbatim>\<open>parent\<close> pointer to
  the node above it; \<open>par\<close> is the parent pointer of the root of \<open>t\<close>. The set \<open>s\<close> is
  the tree \<open>t\<close> when \<open>root s = rootp t\<close> and \<open>tr (heap s) None t\<close>.
\<close>

datatype tree = Lf | Nd tree addr tree

fun inord :: "tree \<Rightarrow> addr list" where
  "inord Lf = []"
| "inord (Nd l a r) = inord l @ a # inord r"

fun rootp :: "tree \<Rightarrow> addr option" where
  "rootp Lf = None"
| "rootp (Nd l a r) = Some a"

fun tr :: "(addr \<Rightarrow> 'a node) \<Rightarrow> addr option \<Rightarrow> tree \<Rightarrow> bool" where
  "tr h par Lf = True"
| "tr h par (Nd l a r) =
     (parent (h a) = par \<and> left (h a) = rootp l \<and> right (h a) = rootp r \<and>
      tr h (Some a) l \<and> tr h (Some a) r)"

text \<open>The values of a list of nodes.\<close>

definition vals :: "'a Set \<Rightarrow> addr list \<Rightarrow> 'a list" where
  "vals s xs = map (\<lambda>a. val (heap s a)) xs"

subsection \<open>The red-black invariants\<close>

text \<open>The colour of the root of a tree; an absent child counts as black.\<close>

fun tcolor :: "(addr \<Rightarrow> 'a node) \<Rightarrow> tree \<Rightarrow> bool" where
  "tcolor h Lf = black"
| "tcolor h (Nd l a r) = color (h a)"

fun no_red_red :: "(addr \<Rightarrow> 'a node) \<Rightarrow> tree \<Rightarrow> bool" where
  "no_red_red h Lf = True"
| "no_red_red h (Nd l a r) =
     ((if color (h a) = red then tcolor h l = black \<and> tcolor h r = black else True) \<and>
      no_red_red h l \<and> no_red_red h r)"

text \<open>
  The number of black nodes on each path from the root to an absent-child position, the
  paths taken from left to right.
\<close>

fun black_counts :: "(addr \<Rightarrow> 'a node) \<Rightarrow> tree \<Rightarrow> nat list" where
  "black_counts h Lf = [0]"
| "black_counts h (Nd l a r) =
     map (\<lambda>n. n + (if color (h a) = black then 1 else 0)) (black_counts h l @ black_counts h r)"

definition same_black_count :: "(addr \<Rightarrow> 'a node) \<Rightarrow> tree \<Rightarrow> bool" where
  "same_black_count h t = (\<exists>k. set (black_counts h t) = {k})"

definition rb_invariants :: "'a Set \<Rightarrow> bool" where
  "rb_invariants s =
     (\<exists>t. root s = rootp t \<and> tr (heap s) None t \<and> tcolor (heap s) t = black \<and>
          no_red_red (heap s) t \<and> same_black_count (heap s) t)"

definition root_black :: "'a Set \<Rightarrow> bool" where
  "root_black s = (case root s of None \<Rightarrow> True | Some r \<Rightarrow> color (heap s r) = black)"

subsection \<open>The invariant of the set\<close>

text \<open>
  What every operation that returns keeps: the store is a tree of distinct allocated nodes,
  the values read in order increase strictly, \<^verbatim>\<open>size\<close> is the number of nodes, and the
  root is black. The balance of black nodes is not part of it: \<^verbatim>\<open>Remove\<close> does not keep it.
\<close>

definition wf_set :: "'a::linorder Set \<Rightarrow> tree \<Rightarrow> bool" where
  "wf_set s t =
     (root s = rootp t \<and> tr (heap s) None t \<and> distinct (inord t) \<and>
      (\<forall>a\<in>set (inord t). a < nxt s) \<and> sorted_wrt (<) (vals s (inord t)) \<and>
      size_s s = int (length (inord t)) \<and> root_black s)"

subsection \<open>A tree with a hole\<close>

text \<open>
  The fix-up loops climb from a node towards the root through \<^verbatim>\<open>parent\<close> pointers. The
  position of a node is the list of the nodes above it, the nearest first: the frame
  \<open>FL a r\<close> says that the position is the left child of \<open>a\<close>, whose right subtree is \<open>r\<close>,
  and \<open>FR l a\<close> that it is the right child of \<open>a\<close>, whose left subtree is \<open>l\<close>.
  \<open>plug c t\<close> is the whole tree, with \<open>t\<close> at the position \<open>c\<close>; \<open>cleft c\<close> and
  \<open>cright c\<close> are the nodes before and after the position in order; \<open>cpar c\<close> is the
  parent of the position, and \<open>croot c p\<close> the root of the whole tree when \<open>p\<close> is at the
  position.
\<close>

datatype frame = FL addr tree | FR tree addr

fun plug :: "frame list \<Rightarrow> tree \<Rightarrow> tree" where
  "plug [] t = t"
| "plug (FL a r # c) t = plug c (Nd t a r)"
| "plug (FR l a # c) t = plug c (Nd l a t)"

fun cleft :: "frame list \<Rightarrow> addr list" where
  "cleft [] = []"
| "cleft (FL a r # c) = cleft c"
| "cleft (FR l a # c) = cleft c @ inord l @ [a]"

fun cright :: "frame list \<Rightarrow> addr list" where
  "cright [] = []"
| "cright (FL a r # c) = a # inord r @ cright c"
| "cright (FR l a # c) = cright c"

fun cpar :: "frame list \<Rightarrow> addr option" where
  "cpar [] = None"
| "cpar (FL a r # c) = Some a"
| "cpar (FR l a # c) = Some a"

fun croot :: "frame list \<Rightarrow> addr option \<Rightarrow> addr option" where
  "croot [] p = p"
| "croot (FL a r # c) p = croot c (Some a)"
| "croot (FR l a # c) p = croot c (Some a)"

text \<open>
  \<open>ctx rt h c p\<close>: in the store \<open>h\<close> with root pointer \<open>rt\<close> the nodes of \<open>c\<close> are linked
  as \<open>c\<close> says, and the pointer at the position is \<open>p\<close>.
\<close>

fun ctx :: "addr option \<Rightarrow> (addr \<Rightarrow> 'a node) \<Rightarrow> frame list \<Rightarrow> addr option \<Rightarrow> bool" where
  "ctx rt h [] p = (rt = p)"
| "ctx rt h (FL a r # c) p =
     (left (h a) = p \<and> right (h a) = rootp r \<and> parent (h a) = cpar c \<and>
      tr h (Some a) r \<and> ctx rt h c (Some a))"
| "ctx rt h (FR l a # c) p =
     (right (h a) = p \<and> left (h a) = rootp l \<and> parent (h a) = cpar c \<and>
      tr h (Some a) l \<and> ctx rt h c (Some a))"

subsection \<open>Conditions of the fix-up loops\<close>

text \<open>
  \<open>same_data\<close>: a step changed neither a value, nor \<^verbatim>\<open>size\<close>, nor the allocator;
  \<open>same_cv\<close>: nor a colour.
\<close>

definition same_data :: "'a Set \<Rightarrow> 'a Set \<Rightarrow> bool" where
  "same_data s s' = (size_s s' = size_s s \<and> nxt s' = nxt s \<and> (\<forall>a. val (heap s' a) = val (heap s a)))"

definition same_cv :: "'a Set \<Rightarrow> 'a Set \<Rightarrow> bool" where
  "same_cv s s' = (size_s s' = size_s s \<and> nxt s' = nxt s \<and>
     (\<forall>a. val (heap s' a) = val (heap s a) \<and> color (heap s' a) = color (heap s a)))"

text \<open>
  The invariant of both fix-up loops at the loop head: the loop variable \<open>z\<close> is the root
  of the subtree \<open>t\<close> at the position \<open>c\<close> of a tree of distinct nodes, and the root of the
  tree is black unless \<open>z\<close> is the root.
\<close>

definition fix_inv :: "'a Set \<Rightarrow> frame list \<Rightarrow> tree \<Rightarrow> addr \<Rightarrow> bool" where
  "fix_inv s c t z =
     (ctx (root s) (heap s) c (Some z) \<and> tr (heap s) (cpar c) t \<and> rootp t = Some z \<and>
      distinct (inord (plug c t)) \<and> (c = [] \<or> root_black s))"

text \<open>
  What a fix-up loop establishes: a tree with the nodes \<open>xs\<close> in order and a black root.
\<close>

definition fix_post :: "'a Set \<Rightarrow> 'a Set \<Rightarrow> addr list \<Rightarrow> bool" where
  "fix_post s s' xs =
     ((\<exists>t'. root s' = rootp t' \<and> tr (heap s') None t' \<and> inord t' = xs) \<and> root_black s' \<and>
      same_data s s')"

text \<open>
  The state after the last rotation of an iteration of \<^verbatim>\<open>insertFixup\<close>: the parent of
  \<open>z1\<close> is black, so the loop ends at the next test.
\<close>

definition fix_done :: "'a Set \<Rightarrow> 'a Set \<Rightarrow> addr \<Rightarrow> addr list \<Rightarrow> bool" where
  "fix_done s s1 z1 xs =
     ((\<exists>t'. root s1 = rootp t' \<and> tr (heap s1) None t' \<and> inord t' = xs) \<and> root_black s1 \<and>
      (\<exists>p. parent (heap s1 z1) = Some p \<and> color (heap s1 p) = black) \<and> same_data s s1)"

text \<open>
  The state after the last rotation of an iteration of \<^verbatim>\<open>deleteFixup\<close>: \<^verbatim>\<open>x\<close> is the
  root, so the loop ends at the next test.
\<close>

definition dfix_done :: "'a Set \<Rightarrow> 'a Set \<Rightarrow> addr option \<Rightarrow> addr list \<Rightarrow> bool" where
  "dfix_done s s1 x1 xs =
     ((\<exists>t'. root s1 = rootp t' \<and> tr (heap s1) None t' \<and> inord t' = xs) \<and> x1 = root s1 \<and>
      same_data s s1)"

text \<open>What \<^verbatim>\<open>deleteNode\<close> establishes when it returns.\<close>

definition del_post :: "'a Set \<Rightarrow> 'a Set \<Rightarrow> addr list \<Rightarrow> bool" where
  "del_post s s' xs =
     ((\<exists>t'. root s' = rootp t' \<and> tr (heap s') None t' \<and> inord t' = xs) \<and> root_black s' \<and>
      size_s s' = size_s s - 1 \<and> nxt s' = nxt s \<and> (\<forall>a. val (heap s' a) = val (heap s a)))"

subsection \<open>Two concrete sets\<close>

text \<open>
  The set after \<^verbatim>\<open>Insert(1); Insert(2); Insert(3); Insert(4); Remove(1)\<close>. Address 0 is
  the node that was removed; it is no longer linked from the root.
\<close>

definition set_2_3_4 :: "int Set" where
  "set_2_3_4 =
     \<lparr>root = Some 1, size_s = 3,
      heap = (\<lambda>_. \<lparr>val = 0, color = black, left = None, right = None, parent = None\<rparr>)
        (0 := \<lparr>val = 1, color = black, left = None, right = None, parent = Some 1\<rparr>,
         1 := \<lparr>val = 2, color = black, left = None, right = Some 2, parent = None\<rparr>,
         2 := \<lparr>val = 3, color = black, left = None, right = Some 3, parent = Some 1\<rparr>,
         3 := \<lparr>val = 4, color = red, left = None, right = None, parent = Some 2\<rparr>),
      nxt = 4\<rparr>"

text \<open>
  The set after \<^verbatim>\<open>Insert(1); Insert(3); Insert(4); Insert(2); Remove(4); Insert(4);
  Insert(5); Insert(6); Remove(3); Remove(5)\<close>: the root is 6 (address 6), its left child
  is 4 (address 4), whose left child is 1 (address 0), whose right child is 2 (address 3).
\<close>

definition set_1_2_4_6 :: "int Set" where
  "set_1_2_4_6 =
     \<lparr>root = Some 6, size_s = 4,
      heap = (\<lambda>_. \<lparr>val = 0, color = black, left = None, right = None, parent = None\<rparr>)
        (0 := \<lparr>val = 1, color = black, left = None, right = Some 3, parent = Some 4\<rparr>,
         1 := \<lparr>val = 3, color = black, left = Some 0, right = None, parent = Some 4\<rparr>,
         2 := \<lparr>val = 4, color = black, left = None, right = None, parent = Some 1\<rparr>,
         3 := \<lparr>val = 2, color = red, left = None, right = None, parent = Some 0\<rparr>,
         4 := \<lparr>val = 4, color = black, left = Some 0, right = None, parent = Some 6\<rparr>,
         5 := \<lparr>val = 5, color = black, left = Some 4, right = Some 6, parent = None\<rparr>,
         6 := \<lparr>val = 6, color = black, left = Some 4, right = None, parent = None\<rparr>),
      nxt = 7\<rparr>"

section \<open>Basic facts about represented trees\<close>

lemma inord_plug: "inord (plug c t) = cleft c @ inord t @ cright c"
  by (induction c t rule: plug.induct) auto

lemma rootp_None [simp]: "(rootp t = None) = (t = Lf)" "(None = rootp t) = (t = Lf)"
  by (cases t; simp)+

lemma rootp_Some: "rootp t = Some a \<Longrightarrow> \<exists>l r. t = Nd l a r"
  by (cases t) auto

lemma rootp_in: "rootp t = Some a \<Longrightarrow> a \<in> set (inord t)"
  by (cases t) auto

text \<open>
A store represents at most one tree at a pointer.
\<close>

lemma tr_fun: "tr h par t \<Longrightarrow> tr h par' t' \<Longrightarrow> rootp t = rootp t' \<Longrightarrow> t = t'"
proof (induction t arbitrary: par par' t')
  case Lf
  then show ?case by simp
next
  case (Nd l a r)
  from Nd.prems obtain l' r' where t': "t' = Nd l' a r'" by (cases t') auto
  with Nd.prems have "tr h (Some a) l" "tr h (Some a) l'" "rootp l = rootp l'"
    "tr h (Some a) r" "tr h (Some a) r'" "rootp r = rootp r'" by auto
  then have "l = l'" "r = r'" using Nd.IH by blast+
  with t' show ?case by simp
qed

text \<open>
Writing a node outside a tree does not change the tree.
\<close>

lemma tr_upd_other [simp]: "a \<notin> set (inord t) \<Longrightarrow> tr (h(a := n)) par t = tr h par t"
  by (induction t arbitrary: par) auto

lemma tr_upd_same [simp]:
  "left n = left (h a) \<Longrightarrow> right n = right (h a) \<Longrightarrow> parent n = parent (h a) \<Longrightarrow>
   tr (h(a := n)) par t = tr h par t"
  by (induction t arbitrary: par) auto

lemma ctx_upd_other [simp]:
  "a \<notin> set (cleft c) \<Longrightarrow> a \<notin> set (cright c) \<Longrightarrow> ctx rt (h(a := n)) c p = ctx rt h c p"
  by (induction c arbitrary: p rule: cleft.induct) auto

lemma ctx_upd_same [simp]:
  "left n = left (h a) \<Longrightarrow> right n = right (h a) \<Longrightarrow> parent n = parent (h a) \<Longrightarrow>
   ctx rt (h(a := n)) c p = ctx rt h c p"
  by (induction c arbitrary: p rule: cleft.induct) auto

text \<open>
  A store is the tree \<open>plug c t\<close> exactly when it is the tree \<open>t\<close> at the position
  \<open>c\<close> and the nodes above the position are linked as \<open>c\<close> says.
\<close>

lemma focus_plug:
  "(rt = rootp (plug c t) \<and> tr h None (plug c t)) = (ctx rt h c (rootp t) \<and> tr h (cpar c) t)"
  by (induction c t rule: plug.induct) auto

lemma plug_append: "plug (c @ c') t = plug c' (plug c t)"
  by (induction c t rule: plug.induct) auto

lemma cpar_in: "cpar c = Some a \<Longrightarrow> a \<in> set (cleft c) \<or> a \<in> set (cright c)"
  by (induction c rule: cleft.induct) auto

subsection \<open>The field assignments\<close>

lemma root_set [simp]:
  "root (set_color a c s) = root s"
  "root (set_left a p s) = root s"
  "root (set_right a p s) = root s"
  "root (set_parent a p s) = root s"
  by (simp_all add: set_color_def set_left_def set_right_def set_parent_def)

lemma size_set [simp]:
  "size_s (set_color a c s) = size_s s"
  "size_s (set_left a p s) = size_s s"
  "size_s (set_right a p s) = size_s s"
  "size_s (set_parent a p s) = size_s s"
  by (simp_all add: set_color_def set_left_def set_right_def set_parent_def)

lemma nxt_set [simp]:
  "nxt (set_color a c s) = nxt s"
  "nxt (set_left a p s) = nxt s"
  "nxt (set_right a p s) = nxt s"
  "nxt (set_parent a p s) = nxt s"
  by (simp_all add: set_color_def set_left_def set_right_def set_parent_def)

lemma val_set [simp]:
  "val (heap (set_color a c s) b) = val (heap s b)"
  "val (heap (set_left a p s) b) = val (heap s b)"
  "val (heap (set_right a p s) b) = val (heap s b)"
  "val (heap (set_parent a p s) b) = val (heap s b)"
  by (simp_all add: set_color_def set_left_def set_right_def set_parent_def)

lemma color_set [simp]:
  "color (heap (set_color a c s) b) = (if b = a then c else color (heap s b))"
  "color (heap (set_left a p s) b) = color (heap s b)"
  "color (heap (set_right a p s) b) = color (heap s b)"
  "color (heap (set_parent a p s) b) = color (heap s b)"
  by (simp_all add: set_color_def set_left_def set_right_def set_parent_def)

lemma left_set [simp]:
  "left (heap (set_color a c s) b) = left (heap s b)"
  "left (heap (set_left a p s) b) = (if b = a then p else left (heap s b))"
  "left (heap (set_right a p s) b) = left (heap s b)"
  "left (heap (set_parent a p s) b) = left (heap s b)"
  by (simp_all add: set_color_def set_left_def set_right_def set_parent_def)

lemma right_set [simp]:
  "right (heap (set_color a c s) b) = right (heap s b)"
  "right (heap (set_left a p s) b) = right (heap s b)"
  "right (heap (set_right a p s) b) = (if b = a then p else right (heap s b))"
  "right (heap (set_parent a p s) b) = right (heap s b)"
  by (simp_all add: set_color_def set_left_def set_right_def set_parent_def)

lemma parent_set [simp]:
  "parent (heap (set_color a c s) b) = parent (heap s b)"
  "parent (heap (set_left a p s) b) = parent (heap s b)"
  "parent (heap (set_right a p s) b) = parent (heap s b)"
  "parent (heap (set_parent a p s) b) = (if b = a then p else parent (heap s b))"
  by (simp_all add: set_color_def set_left_def set_right_def set_parent_def)

lemma tr_set_color [simp]: "tr (heap (set_color a c s)) par t = tr (heap s) par t"
  by (simp add: set_color_def)

lemma tr_set_other [simp]:
  "a \<notin> set (inord t) \<Longrightarrow> tr (heap (set_left a q s)) par t = tr (heap s) par t"
  "a \<notin> set (inord t) \<Longrightarrow> tr (heap (set_right a q s)) par t = tr (heap s) par t"
  "a \<notin> set (inord t) \<Longrightarrow> tr (heap (set_parent a q s)) par t = tr (heap s) par t"
  by (simp_all add: set_left_def set_right_def set_parent_def)

lemma ctx_set_color [simp]: "ctx rt (heap (set_color a c s)) k p = ctx rt (heap s) k p"
  by (simp add: set_color_def)

lemma ctx_set_other [simp]:
  "a \<notin> set (cleft k) \<Longrightarrow> a \<notin> set (cright k) \<Longrightarrow> ctx rt (heap (set_left a q s)) k p = ctx rt (heap s) k p"
  "a \<notin> set (cleft k) \<Longrightarrow> a \<notin> set (cright k) \<Longrightarrow> ctx rt (heap (set_right a q s)) k p = ctx rt (heap s) k p"
  "a \<notin> set (cleft k) \<Longrightarrow> a \<notin> set (cright k) \<Longrightarrow> ctx rt (heap (set_parent a q s)) k p = ctx rt (heap s) k p"
  by (simp_all add: set_left_def set_right_def set_parent_def)

section \<open>Rotations\<close>

text \<open>
  A rotation at the root of the subtree at a position replaces that subtree by the rotated
  one; the nodes in order are the same. It returns when the child that moves up exists.
\<close>

lemma leftRotate_focus:
  assumes c: "ctx (root s) (heap s) c (Some x)"
    and t: "tr (heap s) (cpar c) (Nd A x (Nd B y C))"
    and d: "distinct (inord (plug c (Nd A x (Nd B y C))))"
  shows "\<exists>s'. leftRotate s x = Inr s' \<and> ctx (root s') (heap s') c (Some y) \<and>
           tr (heap s') (cpar c) (Nd (Nd A x B) y C) \<and>
           (\<forall>a. val (heap s' a) = val (heap s a) \<and> color (heap s' a) = color (heap s a)) \<and>
           size_s s' = size_s s \<and> nxt s' = nxt s"
proof -
  from d have d': "distinct (cleft c @ (inord A @ x # inord B @ y # inord C) @ cright c)"
    by (simp add: inord_plug)
  show ?thesis
  proof (cases c)
    case Nil
    with c t d' show ?thesis
      by (cases B) (simp_all add: leftRotate_def Let_def)
  next
    case (Cons f c')
    show ?thesis
    proof (cases f)
      case (FL g R)
      with Cons c t d' show ?thesis
        by (cases B) (simp_all add: leftRotate_def Let_def)
    next
      case (FR L g)
      with Cons c d' have "rootp L \<noteq> Some x"
        by (auto dest: rootp_in)
      with FR Cons c t d' show ?thesis
        by (cases B) (simp_all add: leftRotate_def Let_def)
    qed
  qed
qed

lemma rightRotate_focus:
  assumes c: "ctx (root s) (heap s) c (Some x)"
    and t: "tr (heap s) (cpar c) (Nd (Nd A y B) x C)"
    and d: "distinct (inord (plug c (Nd (Nd A y B) x C)))"
  shows "\<exists>s'. rightRotate s x = Inr s' \<and> ctx (root s') (heap s') c (Some y) \<and>
           tr (heap s') (cpar c) (Nd A y (Nd B x C)) \<and>
           (\<forall>a. val (heap s' a) = val (heap s a) \<and> color (heap s' a) = color (heap s a)) \<and>
           size_s s' = size_s s \<and> nxt s' = nxt s"
proof -
  from d have d': "distinct (cleft c @ (inord A @ y # inord B @ x # inord C) @ cright c)"
    by (simp add: inord_plug)
  show ?thesis
  proof (cases c)
    case Nil
    with c t d' show ?thesis
      by (cases B) (simp_all add: rightRotate_def Let_def)
  next
    case (Cons f c')
    show ?thesis
    proof (cases f)
      case (FR L g)
      with Cons c t d' show ?thesis
        by (cases B) (simp_all add: rightRotate_def Let_def)
    next
      case (FL g R)
      with Cons c d' have "rootp R \<noteq> Some x"
        by (auto dest: rootp_in)
      with FL Cons c t d' show ?thesis
        by (cases B) (simp_all add: rightRotate_def Let_def)
    qed
  qed
qed

subsection \<open>The way to the root\<close>

lemma same_data_refl [simp]: "same_data s s"
  by (simp add: same_data_def)

lemma same_data_trans: "same_data s s1 \<Longrightarrow> same_data s1 s2 \<Longrightarrow> same_data s s2"
  by (simp add: same_data_def)

lemma same_data_set_color [simp]: "same_data s (set_color a c s1) = same_data s s1"
  by (simp add: same_data_def)

lemma ctx_croot: "ctx rt h c p \<Longrightarrow> rt = croot c p"
  by (induction c arbitrary: p rule: cleft.induct) auto

lemma croot_in: "c \<noteq> [] \<Longrightarrow> \<exists>r. (\<forall>p. croot c p = Some r) \<and> (r \<in> set (cleft c) \<or> r \<in> set (cright c))"
proof (induction c rule: cleft.induct)
  case 1
  then show ?case by simp
next
  case (2 a r c)
  then show ?case by (cases c) auto
next
  case (3 l a c)
  then show ?case by (cases c) auto
qed

lemma root_black_keep:
  assumes "c \<noteq> []" "ctx (root s) (heap s) c p" "ctx (root s') (heap s') c p'" "root_black s"
    and "\<forall>a. a \<in> set (cleft c) \<or> a \<in> set (cright c) \<longrightarrow> color (heap s' a) = color (heap s a)"
  shows "root_black s'"
proof -
  from croot_in [OF assms(1)] obtain r where r: "\<forall>p. croot c p = Some r"
    and rin: "r \<in> set (cleft c) \<or> r \<in> set (cright c)" by blast
  from ctx_croot [OF assms(2)] ctx_croot [OF assms(3)] r have "root s = Some r" "root s' = Some r"
    by simp_all
  with assms(4,5) rin show ?thesis by (auto simp: root_black_def)
qed

lemma tr_parent: "tr h par t \<Longrightarrow> rootp t = Some a \<Longrightarrow> parent (h a) = par"
  by (cases t) auto

section \<open>\<^verbatim>\<open>insertFixup\<close>\<close>

text \<open>
  From a state that satisfies the loop invariant, \<^verbatim>\<open>insertFixup\<close> returns, and the
  result is a tree with the same nodes in order and a black root.
\<close>

lemma recolor_rotate_right_ok:
  assumes c: "ctx (root s) (heap s) (FL zp R # FL zpp U # c') (Some z)"
    and t: "tr (heap s) (Some zp) Z" and rz: "rootp Z = Some z"
    and d: "distinct (inord (plug (FL zp R # FL zpp U # c') Z))"
    and rb: "root_black s"
  shows "\<exists>s1. recolor_rotate_right s z = Inr (s1, z) \<and>
           fix_done s s1 z (inord (plug (FL zp R # FL zpp U # c') Z))"
proof -
  from d have d': "distinct (cleft c' @ (inord Z @ zp # inord R @ zpp # inord U) @ cright c')"
    by (simp add: inord_plug)
  let ?s2 = "set_color zpp red (set_color zp black s)"
  have c2: "ctx (root ?s2) (heap ?s2) c' (Some zpp)" using c by simp
  have t2: "tr (heap ?s2) (cpar c') (Nd (Nd Z zp R) zpp U)" using c t rz by simp
  have d2: "distinct (inord (plug c' (Nd (Nd Z zp R) zpp U)))" using d by simp
  from rightRotate_focus [OF c2 t2 d2] obtain s3 where
    r: "rightRotate ?s2 zpp = Inr s3" and c3: "ctx (root s3) (heap s3) c' (Some zp)"
    and t3: "tr (heap s3) (cpar c') (Nd Z zp (Nd R zpp U))"
    and v3: "\<forall>a. val (heap s3 a) = val (heap ?s2 a) \<and> color (heap s3 a) = color (heap ?s2 a)"
    and sz: "size_s s3 = size_s ?s2" "nxt s3 = nxt ?s2" by blast
  have b: "recolor_rotate_right s z = Inr (s3, z)"
    using c r tr_parent [OF t rz] by (simp add: recolor_rotate_right_def Let_def)
  from c3 t3 have w: "root s3 = rootp (plug c' (Nd Z zp (Nd R zpp U))) \<and> tr (heap s3) None (plug c' (Nd Z zp (Nd R zpp U)))"
    by (simp add: focus_plug)
  have io: "inord (plug c' (Nd Z zp (Nd R zpp U))) = inord (plug (FL zp R # FL zpp U # c') Z)"
    by (simp add: inord_plug)
  have pz: "parent (heap s3 z) = Some zp" using t3 rz by (cases Z) auto
  have czp: "color (heap s3 zp) = black" using v3 d' by simp
  have rbl: "root_black s3"
  proof (cases c')
    case Nil
    with c3 czp show ?thesis by (simp add: root_black_def)
  next
    case (Cons f c'')
    then have ne: "c' \<noteq> []" by simp
    have cs: "ctx (root s) (heap s) c' (Some zpp)" using c by simp
    show ?thesis
      by (rule root_black_keep [OF ne cs c3 rb]) (use v3 d' in auto)
  qed
  from b w io pz czp rbl v3 sz show ?thesis
    by (auto simp: fix_done_def same_data_def)
qed

lemma recolor_rotate_left_ok:
  assumes c: "ctx (root s) (heap s) (FR L zp # FR U zpp # c') (Some z)"
    and t: "tr (heap s) (Some zp) Z" and rz: "rootp Z = Some z"
    and d: "distinct (inord (plug (FR L zp # FR U zpp # c') Z))"
    and rb: "root_black s"
  shows "\<exists>s1. recolor_rotate_left s z = Inr (s1, z) \<and>
           fix_done s s1 z (inord (plug (FR L zp # FR U zpp # c') Z))"
proof -
  from d have d': "distinct (cleft c' @ (inord U @ zpp # inord L @ zp # inord Z) @ cright c')"
    by (simp add: inord_plug)
  let ?s2 = "set_color zpp red (set_color zp black s)"
  have c2: "ctx (root ?s2) (heap ?s2) c' (Some zpp)" using c by simp
  have t2: "tr (heap ?s2) (cpar c') (Nd U zpp (Nd L zp Z))" using c t rz by simp
  have d2: "distinct (inord (plug c' (Nd U zpp (Nd L zp Z))))" using d by simp
  from leftRotate_focus [OF c2 t2 d2] obtain s3 where
    r: "leftRotate ?s2 zpp = Inr s3" and c3: "ctx (root s3) (heap s3) c' (Some zp)"
    and t3: "tr (heap s3) (cpar c') (Nd (Nd U zpp L) zp Z)"
    and v3: "\<forall>a. val (heap s3 a) = val (heap ?s2 a) \<and> color (heap s3 a) = color (heap ?s2 a)"
    and sz: "size_s s3 = size_s ?s2" "nxt s3 = nxt ?s2" by blast
  have b: "recolor_rotate_left s z = Inr (s3, z)"
    using c r tr_parent [OF t rz] by (simp add: recolor_rotate_left_def Let_def)
  from c3 t3 have w: "root s3 = rootp (plug c' (Nd (Nd U zpp L) zp Z)) \<and> tr (heap s3) None (plug c' (Nd (Nd U zpp L) zp Z))"
    by (simp add: focus_plug)
  have io: "inord (plug c' (Nd (Nd U zpp L) zp Z)) = inord (plug (FR L zp # FR U zpp # c') Z)"
    by (simp add: inord_plug)
  have pz: "parent (heap s3 z) = Some zp" using t3 rz by (cases Z) auto
  have czp: "color (heap s3 zp) = black" using v3 d' by simp
  have rbl: "root_black s3"
  proof (cases c')
    case Nil
    with c3 czp show ?thesis by (simp add: root_black_def)
  next
    case (Cons f c'')
    then have ne: "c' \<noteq> []" by simp
    have cs: "ctx (root s) (heap s) c' (Some zpp)" using c by simp
    show ?thesis
      by (rule root_black_keep [OF ne cs c3 rb]) (use v3 d' in auto)
  qed
  from b w io pz czp rbl v3 sz show ?thesis
    by (auto simp: fix_done_def same_data_def)
qed

lemma fix_done_trans: "same_data s s1 \<Longrightarrow> fix_done s1 s2 z xs \<Longrightarrow> fix_done s s2 z xs"
  by (auto simp: fix_done_def same_data_def)

lemma insertFixup_body_left_black:
  assumes c: "ctx (root s) (heap s) (f1 # FL zpp U # c') (Some z)" and zp: "cpar [f1] = Some zp"
    and t: "tr (heap s) (Some zp) t" and rz: "rootp t = Some z"
    and d: "distinct (inord (plug (f1 # FL zpp U # c') t))"
    and rb: "root_black s" and u: "nil_or_black s (rootp U)"
  shows "\<exists>s1 z1. insertFixup_body s z zp = Inr (s1, z1) \<and>
           fix_done s s1 z1 (inord (plug (f1 # FL zpp U # c') t))"
proof (cases f1)
  case (FL a R)
  with zp have a: "a = zp" by simp
  from d rz FL have nz: "rootp R \<noteq> Some z" by (auto simp: inord_plug dest: rootp_in)
  from recolor_rotate_right_ok [OF c [unfolded FL a] t rz d [unfolded FL a] rb]
  obtain s1 where "recolor_rotate_right s z = Inr (s1, z)"
    "fix_done s s1 z (inord (plug (FL zp R # FL zpp U # c') t))" by blast
  moreover have "insertFixup_body s z zp = recolor_rotate_right s z"
    using c u nz FL a by (simp add: insertFixup_body_def)
  ultimately show ?thesis using FL a by auto
next
  case (FR L a)
  with zp have a: "a = zp" by simp
  from rz obtain zl zr where tz: "t = Nd zl z zr" by (auto dest: rootp_Some)
  let ?c2 = "FL zpp U # c'"
  have c2: "ctx (root s) (heap s) ?c2 (Some zp)" using c FR a by simp
  have t2: "tr (heap s) (cpar ?c2) (Nd L zp (Nd zl z zr))" using c t FR a tz by simp
  have d2: "distinct (inord (plug ?c2 (Nd L zp (Nd zl z zr))))" using d FR a tz by (simp add: inord_plug)
  from leftRotate_focus [OF c2 t2 d2] obtain s1 where
    r: "leftRotate s zp = Inr s1" and c3: "ctx (root s1) (heap s1) ?c2 (Some z)"
    and t3: "tr (heap s1) (cpar ?c2) (Nd (Nd L zp zl) z zr)"
    and v3: "\<forall>a. val (heap s1 a) = val (heap s a) \<and> color (heap s1 a) = color (heap s a)"
    and sz: "size_s s1 = size_s s" "nxt s1 = nxt s" by blast
  have sd: "same_data s s1" using v3 sz by (simp add: same_data_def)
  have rb1: "root_black s1"
    by (rule root_black_keep [OF _ c2 c3 rb]) (use v3 in auto)
  have c4: "ctx (root s1) (heap s1) (FL z zr # FL zpp U # c') (Some zp)" using c3 t3 by simp
  have t4: "tr (heap s1) (Some z) (Nd L zp zl)" using t3 by simp
  have d4: "distinct (inord (plug (FL z zr # FL zpp U # c') (Nd L zp zl)))" using d2 by (simp add: inord_plug)
  from recolor_rotate_right_ok [OF c4 t4 _ d4 rb1]
  obtain s2 where r2: "recolor_rotate_right s1 zp = Inr (s2, zp)"
    and f2: "fix_done s1 s2 zp (inord (plug (FL z zr # FL zpp U # c') (Nd L zp zl)))" by auto
  have "insertFixup_body s z zp = Inr (s2, zp)"
    using c u FR a r r2 by (simp add: insertFixup_body_def)
  moreover have "inord (plug (FL z zr # FL zpp U # c') (Nd L zp zl)) = inord (plug (f1 # FL zpp U # c') t)"
    using FR a tz by (simp add: inord_plug)
  ultimately show ?thesis using fix_done_trans [OF sd f2] by auto
qed

lemma insertFixup_body_right_black:
  assumes c: "ctx (root s) (heap s) (f1 # FR U zpp # c') (Some z)" and zp: "cpar [f1] = Some zp"
    and t: "tr (heap s) (Some zp) t" and rz: "rootp t = Some z"
    and d: "distinct (inord (plug (f1 # FR U zpp # c') t))"
    and rb: "root_black s" and u: "nil_or_black s (rootp U)"
  shows "\<exists>s1 z1. insertFixup_body s z zp = Inr (s1, z1) \<and>
           fix_done s s1 z1 (inord (plug (f1 # FR U zpp # c') t))"
proof -
  from c zp d have nzp: "rootp U \<noteq> Some zp"
    by (cases f1) (auto simp: inord_plug dest: rootp_in)
  show ?thesis
  proof (cases f1)
    case (FR L a)
    with zp have a: "a = zp" by simp
    from d rz FR have nz: "rootp L \<noteq> Some z" by (auto simp: inord_plug dest: rootp_in)
    from recolor_rotate_left_ok [OF c [unfolded FR a] t rz d [unfolded FR a] rb]
    obtain s1 where "recolor_rotate_left s z = Inr (s1, z)"
      "fix_done s s1 z (inord (plug (FR L zp # FR U zpp # c') t))" by blast
    moreover have "insertFixup_body s z zp = recolor_rotate_left s z"
      using c u nz nzp FR a by (simp add: insertFixup_body_def)
    ultimately show ?thesis using FR a by auto
  next
    case (FL a R)
    with zp have a: "a = zp" by simp
    from rz obtain zl zr where tz: "t = Nd zl z zr" by (auto dest: rootp_Some)
    let ?c2 = "FR U zpp # c'"
    have c2: "ctx (root s) (heap s) ?c2 (Some zp)" using c FL a by simp
    have t2: "tr (heap s) (cpar ?c2) (Nd (Nd zl z zr) zp R)" using c t FL a tz by simp
    have d2: "distinct (inord (plug ?c2 (Nd (Nd zl z zr) zp R)))" using d FL a tz by (simp add: inord_plug)
    from rightRotate_focus [OF c2 t2 d2] obtain s1 where
      r: "rightRotate s zp = Inr s1" and c3: "ctx (root s1) (heap s1) ?c2 (Some z)"
      and t3: "tr (heap s1) (cpar ?c2) (Nd zl z (Nd zr zp R))"
      and v3: "\<forall>a. val (heap s1 a) = val (heap s a) \<and> color (heap s1 a) = color (heap s a)"
      and sz: "size_s s1 = size_s s" "nxt s1 = nxt s" by blast
    have sd: "same_data s s1" using v3 sz by (simp add: same_data_def)
    have rb1: "root_black s1"
      by (rule root_black_keep [OF _ c2 c3 rb]) (use v3 in auto)
    have c4: "ctx (root s1) (heap s1) (FR zl z # FR U zpp # c') (Some zp)" using c3 t3 by simp
    have t4: "tr (heap s1) (Some z) (Nd zr zp R)" using t3 by simp
    have d4: "distinct (inord (plug (FR zl z # FR U zpp # c') (Nd zr zp R)))" using d2 by (simp add: inord_plug)
    from recolor_rotate_left_ok [OF c4 t4 _ d4 rb1]
    obtain s2 where r2: "recolor_rotate_left s1 zp = Inr (s2, zp)"
      and f2: "fix_done s1 s2 zp (inord (plug (FR zl z # FR U zpp # c') (Nd zr zp R)))" by auto
    have "insertFixup_body s z zp = Inr (s2, zp)"
      using c u nzp FL a r r2 by (simp add: insertFixup_body_def)
    moreover have "inord (plug (FR zl z # FR U zpp # c') (Nd zr zp R)) = inord (plug (f1 # FR U zpp # c') t)"
      using FL a tz by (simp add: inord_plug)
    ultimately show ?thesis using fix_done_trans [OF sd f2] by auto
  qed
qed

lemma not_nil_or_black: "\<not> nil_or_black s (rootp U) \<Longrightarrow> \<exists>l u r. U = Nd l u r \<and> color (heap s u) = red"
  by (cases U) (auto simp: nil_or_black_def)

lemma insertFixup_body_red:
  assumes c: "ctx (root s) (heap s) (f1 # f2 # c') (Some z)" and zp: "cpar [f1] = Some zp"
    and t: "tr (heap s) (Some zp) t" and rz: "rootp t = Some z"
    and d: "distinct (inord (plug (f1 # f2 # c') t))"
    and rb: "root_black s"
    and u: "f2 = FL zpp U \<or> f2 = FR U zpp" "\<not> nil_or_black s (rootp U)"
  shows "\<exists>s1 t1. insertFixup_body s z zp = Inr (s1, zpp) \<and> fix_inv s1 c' t1 zpp \<and>
           inord (plug c' t1) = inord (plug (f1 # f2 # c') t) \<and> same_data s s1"
proof -
  from not_nil_or_black [OF u(2)] obtain ul ua ur where U: "U = Nd ul ua ur" and cu: "color (heap s ua) = red"
    by blast
  let ?s1 = "set_color zpp red (set_color ua black (set_color zp black s))"
  let ?t1 = "plug [f1, f2] t"
  from c zp d u(1) have nzp: "f2 = FR U zpp \<Longrightarrow> rootp U \<noteq> Some zp"
    by (cases f1) (auto simp: inord_plug dest: rootp_in)
  have b: "insertFixup_body s z zp = Inr (?s1, zpp)"
    using c zp u U cu nzp by (cases f1) (auto simp: insertFixup_body_def nil_or_black_def)
  have c1: "ctx (root ?s1) (heap ?s1) c' (Some zpp)"
    using c u(1) by (cases f1) auto
  have t1: "tr (heap ?s1) (cpar c') ?t1"
    using c zp t rz u(1) by (cases f1) auto
  have r1: "rootp ?t1 = Some zpp" using u(1) by (cases f1) auto
  have d1: "distinct (inord (plug c' ?t1))" using d u(1) by (cases f1) (auto simp: inord_plug)
  have io: "inord (plug c' ?t1) = inord (plug (f1 # f2 # c') t)" using u(1) by (cases f1) (auto simp: inord_plug)
  have rb1: "c' = [] \<or> root_black ?s1"
  proof (cases c')
    case Nil
    then show ?thesis by simp
  next
    case (Cons f c'')
    then have ne: "c' \<noteq> []" by simp
    have cs: "ctx (root s) (heap s) c' (Some zpp)" using c u(1) by (cases f1) auto
    have "root_black ?s1"
      by (rule root_black_keep [OF ne cs c1 rb]) (use d zp u(1) U in \<open>cases f1; auto simp: inord_plug\<close>)
    then show ?thesis ..
  qed
  from b c1 t1 r1 d1 io rb1 show ?thesis
    by (auto simp: fix_inv_def same_data_def)
qed

lemma insertFixup_body_ok:
  assumes inv: "fix_inv s c t z" and zp: "cpar c = Some zp" and red: "color (heap s zp) = red"
  shows "\<exists>s1 z1. insertFixup_body s z zp = Inr (s1, z1) \<and>
           (fix_done s s1 z1 (inord (plug c t)) \<or>
            (\<exists>c1 t1. fix_inv s1 c1 t1 z1 \<and> inord (plug c1 t1) = inord (plug c t) \<and>
                     length c1 < length c \<and> same_data s s1))"
proof -
  from zp obtain f1 c2 where c: "c = f1 # c2" by (cases c) auto
  with zp have zp1: "cpar [f1] = Some zp" by (cases f1) auto
  from inv c have rb: "root_black s" by (simp add: fix_inv_def)
  from inv have cx: "ctx (root s) (heap s) c (Some z)" and rz: "rootp t = Some z"
    and d: "distinct (inord (plug c t))" and t0: "tr (heap s) (cpar c) t"
    by (simp_all add: fix_inv_def)
  from t0 zp have t: "tr (heap s) (Some zp) t" by simp
  have "c2 \<noteq> []"
  proof
    assume "c2 = []"
    with cx c zp1 have "root s = Some zp" by (cases f1) auto
    with rb red show False by (simp add: root_black_def)
  qed
  then obtain f2 c' where c2: "c2 = f2 # c'" by (cases c2) auto
  obtain zpp U where f2: "f2 = FL zpp U \<or> f2 = FR U zpp" by (cases f2) auto
  show ?thesis
  proof (cases "nil_or_black s (rootp U)")
    case True
    from f2 show ?thesis
    proof
      assume "f2 = FL zpp U"
      with insertFixup_body_left_black [OF _ zp1 t rz _ rb True, of zpp c'] cx d c c2 show ?thesis
        by auto
    next
      assume "f2 = FR U zpp"
      with insertFixup_body_right_black [OF _ zp1 t rz _ rb True, of zpp c'] cx d c c2 show ?thesis
        by auto
    qed
  next
    case False
    from insertFixup_body_red [OF cx [unfolded c c2] zp1 t rz d [unfolded c c2] rb f2 False]
    obtain s1 t1 where b: "insertFixup_body s z zp = Inr (s1, zpp)" and i: "fix_inv s1 c' t1 zpp"
      "inord (plug c' t1) = inord (plug (f1 # f2 # c') t)" "same_data s s1" by blast
    from i c c2 have "fix_inv s1 c' t1 zpp \<and> inord (plug c' t1) = inord (plug c t) \<and>
        length c' < length c \<and> same_data s s1" by simp
    with b show ?thesis by blast
  qed
qed

lemma fix_post_trans: "same_data s s1 \<Longrightarrow> fix_post s1 s2 xs \<Longrightarrow> fix_post s s2 xs"
  by (auto simp: fix_post_def same_data_def)

lemma insertFixup_exit:
  assumes "root s = rootp T" "tr (heap s) None T" "T \<noteq> Lf"
  shows "\<exists>s'. (case root s of None \<Rightarrow> Some (Inl NilDeref) | Some r \<Rightarrow> Some (Inr (set_color r black s)))
            = Some (Inr s') \<and> fix_post s s' (inord T)"
proof -
  from assms obtain l r a where T: "T = Nd l a r" by (cases T) auto
  with assms have "root s = Some a" by simp
  moreover have "fix_post s (set_color a black s) (inord T)"
    unfolding fix_post_def using assms T
    by (auto simp: root_black_def same_data_def intro!: exI [of _ T])
  ultimately show ?thesis by simp
qed

lemma insertFixup_ok:
  "fix_inv s c t z \<Longrightarrow> \<exists>s'. insertFixup s z = Some (Inr s') \<and> fix_post s s' (inord (plug c t))"
proof (induction "length c" arbitrary: s c t z rule: less_induct)
  case less
  from less.prems have cx: "ctx (root s) (heap s) c (Some z)" and rz: "rootp t = Some z"
    and t0: "tr (heap s) (cpar c) t"
    by (simp_all add: fix_inv_def)
  from tr_parent [OF t0 rz] have pz: "parent (heap s z) = cpar c" .
  from cx t0 rz have whole: "root s = rootp (plug c t)" "tr (heap s) None (plug c t)"
    using focus_plug [of "root s" c t "heap s"] by simp_all
  from rz have ne: "plug c t \<noteq> Lf"
    by (metis inord.simps(1) inord_plug rootp_in append_is_Nil_conv empty_iff list.set(1))
  from insertFixup_exit [OF whole ne] obtain s' where
    ex: "(case root s of None \<Rightarrow> Some (Inl NilDeref) | Some r \<Rightarrow> Some (Inr (set_color r black s))) = Some (Inr s')"
    and po: "fix_post s s' (inord (plug c t))" by blast
  show ?case
  proof (cases "cpar c")
    case None
    with pz ex po show ?thesis by (subst insertFixup.simps) auto
  next
    case (Some zp)
    show ?thesis
    proof (cases "color (heap s zp) = red")
      case False
      with Some pz ex po show ?thesis by (subst insertFixup.simps) auto
    next
      case True
      from insertFixup_body_ok [OF less.prems Some True] obtain s1 z1 where
        b: "insertFixup_body s z zp = Inr (s1, z1)"
        and alt: "fix_done s s1 z1 (inord (plug c t)) \<or>
            (\<exists>c1 t1. fix_inv s1 c1 t1 z1 \<and> inord (plug c1 t1) = inord (plug c t) \<and>
                     length c1 < length c \<and> same_data s s1)" by blast
      have step: "insertFixup s z = insertFixup s1 z1"
        using Some pz True b by (subst insertFixup.simps) simp
      from alt show ?thesis
      proof
        assume fd: "fix_done s s1 z1 (inord (plug c t))"
        then obtain t' p where t': "root s1 = rootp t'" "tr (heap s1) None t'" "inord t' = inord (plug c t)"
          and p: "parent (heap s1 z1) = Some p" "color (heap s1 p) = black" and sd: "same_data s s1"
          by (auto simp: fix_done_def)
        from t'(3) ne have ne': "t' \<noteq> Lf" by (cases t'; cases "plug c t") auto
        from insertFixup_exit [OF t'(1,2) ne'] obtain s2 where
          ex2: "(case root s1 of None \<Rightarrow> Some (Inl NilDeref) | Some r \<Rightarrow> Some (Inr (set_color r black s1))) = Some (Inr s2)"
          and po2: "fix_post s1 s2 (inord t')" by blast
        have "insertFixup s1 z1 = Some (Inr s2)"
          using p ex2 by (subst insertFixup.simps) simp
        with step fix_post_trans [OF sd po2] t'(3) show ?thesis by simp
      next
        assume "\<exists>c1 t1. fix_inv s1 c1 t1 z1 \<and> inord (plug c1 t1) = inord (plug c t) \<and>
                     length c1 < length c \<and> same_data s s1"
        then obtain c1 t1 where i1: "fix_inv s1 c1 t1 z1" and io: "inord (plug c1 t1) = inord (plug c t)"
          and len: "length c1 < length c" and sd: "same_data s s1" by blast
        from less.hyps [OF len i1] obtain s2 where "insertFixup s1 z1 = Some (Inr s2)"
          "fix_post s1 s2 (inord (plug c1 t1))" by blast
        with step io fix_post_trans [OF sd] show ?thesis by auto
      qed
    qed
  qed
qed

section \<open>\<^verbatim>\<open>Insert\<close>\<close>

text \<open>
  The search of \<^verbatim>\<open>Insert\<close> ends at the node with the value or at the position where
  the value belongs; the new node is linked there and \<^verbatim>\<open>insertFixup\<close> runs from it.
\<close>

lemma vals_simps [simp]:
  "vals s [] = []" "vals s (a # xs) = val (heap s a) # vals s xs"
  "vals s (xs @ ys) = vals s xs @ vals s ys"
  by (simp_all add: vals_def)

lemma set_vals: "set (vals s xs) = (\<lambda>a. val (heap s a)) ` set xs"
  by (simp add: vals_def)

lemma insert_loop_ok:
  fixes s :: "'a::linorder Set"
  assumes "ctx rt (heap s) c (rootp t)" "tr (heap s) (cpar c) t"
    and "sorted_wrt (<) (vals s (inord (plug c t)))"
    and "\<forall>a\<in>set (cleft c). val (heap s a) < x" "\<forall>a\<in>set (cright c). x < val (heap s a)"
  shows "if x \<in> set (vals s (inord t)) then insert_loop s x (cpar c) (rootp t) = Some None
         else \<exists>c'. insert_loop s x (cpar c) (rootp t) = Some (Some (cpar c')) \<and>
                ctx rt (heap s) c' None \<and> plug c' Lf = plug c t \<and>
                (\<forall>a\<in>set (cleft c'). val (heap s a) < x) \<and>
                (\<forall>a\<in>set (cright c'). x < val (heap s a))"
  using assms
proof (induction t arbitrary: c)
  case Lf
  then show ?case by (subst insert_loop.simps) auto
next
  case (Nd l a r)
  let ?v = "val (heap s a)"
  from Nd.prems(3) have so: "sorted_wrt (<) (vals s (cleft c) @ vals s (inord l) @ ?v # vals s (inord r) @ vals s (cright c))"
    by (simp add: inord_plug)
  then have lv: "\<forall>y\<in>set (vals s (inord l)). y < ?v" and rv: "\<forall>y\<in>set (vals s (inord r)). ?v < y"
    by (auto simp: sorted_wrt_append)
  consider (lt) "x < ?v" | (gt) "?v < x" | (eq) "x = ?v" by (metis less_linear)
  then show ?case
  proof cases
    case lt
    have 1: "ctx rt (heap s) (FL a r # c) (rootp l)" using Nd.prems(1,2) by simp
    have 2: "tr (heap s) (cpar (FL a r # c)) l" using Nd.prems(2) by simp
    have 3: "sorted_wrt (<) (vals s (inord (plug (FL a r # c) l)))" using Nd.prems(3) by simp
    have 4: "\<forall>b\<in>set (cleft (FL a r # c)). val (heap s b) < x" using Nd.prems(4) by simp
    have 5: "\<forall>b\<in>set (cright (FL a r # c)). x < val (heap s b)"
      using Nd.prems(5) lt rv by (auto simp: set_vals)
    have mem: "x \<in> set (vals s (inord (Nd l a r))) \<longleftrightarrow> x \<in> set (vals s (inord l))"
      using lt rv by auto
    have step: "insert_loop s x (cpar c) (rootp (Nd l a r)) = insert_loop s x (cpar (FL a r # c)) (rootp l)"
      using lt Nd.prems(2) by (subst insert_loop.simps) simp
    from Nd.IH(1) [OF 1 2 3 4 5] show ?thesis
      unfolding mem step by auto
  next
    case gt
    have 1: "ctx rt (heap s) (FR l a # c) (rootp r)" using Nd.prems(1,2) by simp
    have 2: "tr (heap s) (cpar (FR l a # c)) r" using Nd.prems(2) by simp
    have 3: "sorted_wrt (<) (vals s (inord (plug (FR l a # c) r)))" using Nd.prems(3) by simp
    have 4: "\<forall>b\<in>set (cleft (FR l a # c)). val (heap s b) < x"
      using Nd.prems(4) gt lv by (auto simp: set_vals)
    have 5: "\<forall>b\<in>set (cright (FR l a # c)). x < val (heap s b)" using Nd.prems(5) by simp
    have mem: "x \<in> set (vals s (inord (Nd l a r))) \<longleftrightarrow> x \<in> set (vals s (inord r))"
      using gt lv by auto
    have step: "insert_loop s x (cpar c) (rootp (Nd l a r)) = insert_loop s x (cpar (FR l a # c)) (rootp r)"
      using gt Nd.prems(2) by (subst insert_loop.simps) (simp add: less_not_sym)
    from Nd.IH(2) [OF 1 2 3 4 5] show ?thesis
      unfolding mem step by auto
  next
    case eq
    then show ?thesis by (subst insert_loop.simps) simp
  qed
qed

lemma newNode_simps [simp]:
  "root (newNode s x p) = root s" "size_s (newNode s x p) = size_s s"
  "nxt (newNode s x p) = Suc (nxt s)"
  "heap (newNode s x p) = (heap s)(nxt s := \<lparr>val = x, color = red, left = None, right = None, parent = p\<rparr>)"
  by (simp_all add: newNode_def)

lemma insert_link_ok:
  fixes s :: "'a::linorder Set"
  assumes c: "ctx (root s) (heap s) c' None"
    and d: "distinct (cleft c' @ cright c')"
    and fresh: "\<forall>a\<in>set (cleft c' @ cright c'). a < nxt s"
    and lo: "\<forall>a\<in>set (cleft c'). val (heap s a) < x" and hi: "\<forall>a\<in>set (cright c'). x < val (heap s a)"
    and rb: "root_black s"
  defines "s1 \<equiv> newNode s x (cpar c')"
  defines "s2 \<equiv> (case cpar c' of
                       None \<Rightarrow> s1\<lparr>root := Some (nxt s)\<rparr>
                     | Some p \<Rightarrow>
                         if x < val (heap s1 p) then set_left p (Some (nxt s)) s1
                         else set_right p (Some (nxt s)) s1)"
  shows "fix_inv s2 c' (Nd Lf (nxt s) Lf) (nxt s)"
    and "size_s s2 = size_s s" and "nxt s2 = Suc (nxt s)"
    and "\<forall>a. val (heap s2 a) = (if a = nxt s then x else val (heap s a))"
proof -
  let ?n = "nxt s"
  from fresh have nn: "?n \<notin> set (cleft c')" "?n \<notin> set (cright c')" by auto
  have "fix_inv s2 c' (Nd Lf ?n Lf) ?n \<and> size_s s2 = size_s s \<and> nxt s2 = Suc ?n \<and>
        (\<forall>a. val (heap s2 a) = (if a = ?n then x else val (heap s a)))"
  proof (cases c')
    case Nil
    with c show ?thesis by (simp add: s2_def s1_def fix_inv_def)
  next
    case (Cons f c'')
    then have ne: "c' \<noteq> []" by simp
    from croot_in [OF ne] obtain r where r: "\<forall>p. croot c' p = Some r"
      and rin: "r \<in> set (cleft c') \<or> r \<in> set (cright c')" by blast
    from ctx_croot [OF c] r have rs: "root s = Some r" by simp
    from rin nn have rn: "r \<noteq> ?n" by auto
    show ?thesis
    proof (cases f)
      case (FL a R)
      with Cons hi have lt: "x < val (heap s a)" by simp
      from FL Cons nn have an: "a \<noteq> ?n" by auto
      have s2: "s2 = set_left a (Some ?n) s1" using FL Cons lt an by (simp add: s2_def s1_def)
      have rb2: "root_black s2" using rb rs rn by (simp add: s2 s1_def root_black_def)
      show ?thesis
        using c d nn FL Cons an rb2 by (auto simp: s2 s1_def fix_inv_def inord_plug)
    next
      case (FR L a)
      with Cons lo have gt: "\<not> x < val (heap s a)" by (simp add: less_not_sym)
      from FR Cons nn have an: "a \<noteq> ?n" by auto
      have s2: "s2 = set_right a (Some ?n) s1" using FR Cons gt an by (simp add: s2_def s1_def)
      have rb2: "root_black s2" using rb rs rn by (simp add: s2 s1_def root_black_def)
      show ?thesis
        using c d nn FR Cons an rb2 by (auto simp: s2 s1_def fix_inv_def inord_plug)
    qed
  qed
  then show "fix_inv s2 c' (Nd Lf (nxt s) Lf) (nxt s)"
    and "size_s s2 = size_s s" and "nxt s2 = Suc (nxt s)"
    and "\<forall>a. val (heap s2 a) = (if a = nxt s then x else val (heap s a))" by simp_all
qed

lemma Insert_ok:
  fixes s :: "'a::linorder Set"
  assumes wf: "wf_set s t"
  shows "\<exists>s' t'. Insert s x = Some (Inr s') \<and> wf_set s' t' \<and>
           set (vals s' (inord t')) = insert x (set (vals s (inord t))) \<and>
           (x \<in> set (vals s (inord t)) \<longrightarrow> s' = s)"
proof -
  from wf have r: "root s = rootp t" and t: "tr (heap s) None t" and d: "distinct (inord t)"
    and fr: "\<forall>a\<in>set (inord t). a < nxt s" and so: "sorted_wrt (<) (vals s (inord t))"
    and sz: "size_s s = int (length (inord t))" and rb: "root_black s"
    by (simp_all add: wf_set_def)
  have l: "if x \<in> set (vals s (inord t)) then insert_loop s x (cpar []) (rootp t) = Some None
         else \<exists>c'. insert_loop s x (cpar []) (rootp t) = Some (Some (cpar c')) \<and>
                ctx (root s) (heap s) c' None \<and> plug c' Lf = plug [] t \<and>
                (\<forall>a\<in>set (cleft c'). val (heap s a) < x) \<and>
                (\<forall>a\<in>set (cright c'). x < val (heap s a))"
    by (rule insert_loop_ok) (use r t so in simp_all)
  show ?thesis
  proof (cases "x \<in> set (vals s (inord t))")
    case True
    with l r have "Insert s x = Some (Inr s)" by (simp add: Insert_def)
    with wf True show ?thesis by auto
  next
    case False
    with l obtain c' where il: "insert_loop s x None (root s) = Some (Some (cpar c'))"
      and c: "ctx (root s) (heap s) c' None" and pl: "plug c' Lf = t"
      and lo: "\<forall>a\<in>set (cleft c'). val (heap s a) < x" and hi: "\<forall>a\<in>set (cright c'). x < val (heap s a)"
      using r by auto
    from pl have io: "inord t = cleft c' @ cright c'" using inord_plug [of c' Lf] by simp
    let ?n = "nxt s"
    let ?s1 = "newNode s x (cpar c')"
    let ?s2 = "(case cpar c' of
                       None \<Rightarrow> ?s1\<lparr>root := Some ?n\<rparr>
                     | Some p \<Rightarrow>
                         if x < val (heap ?s1 p) then set_left p (Some ?n) ?s1
                         else set_right p (Some ?n) ?s1)"
    from d io have d': "distinct (cleft c' @ cright c')" by simp
    from fr io have fr': "\<forall>a\<in>set (cleft c' @ cright c'). a < nxt s" by simp
    note ln = insert_link_ok [OF c d' fr' lo hi rb]
    from insertFixup_ok [OF ln(1)] obtain s3 where
      f: "insertFixup ?s2 ?n = Some (Inr s3)"
      and po: "fix_post ?s2 s3 (inord (plug c' (Nd Lf ?n Lf)))" by blast
    from po obtain t' where t': "root s3 = rootp t'" "tr (heap s3) None t'"
      "inord t' = cleft c' @ ?n # cright c'" and rb3: "root_black s3" and sd: "same_data ?s2 s3"
      by (auto simp: fix_post_def inord_plug)
    let ?s' = "s3\<lparr>size_s := size_s s3 + 1\<rparr>"
    have ins: "Insert s x = Some (Inr ?s')"
      using il f by (simp add: Insert_def Let_def)
    from fr' have nn: "?n \<notin> set (cleft c')" "?n \<notin> set (cright c')" by auto
    have v3: "\<And>a. val (heap s3 a) = (if a = ?n then x else val (heap s a))"
      using sd ln(4) by (simp add: same_data_def)
    have vl: "vals ?s' (cleft c') = vals s (cleft c')" "vals ?s' (cright c') = vals s (cright c')"
      using nn v3 by (auto simp: vals_def)
    have vt: "vals ?s' (inord t') = vals s (cleft c') @ x # vals s (cright c')"
      using t'(3) vl v3 by simp
    have so': "sorted_wrt (<) (vals ?s' (inord t'))"
      using so lo hi unfolding vt io by (auto simp: sorted_wrt_append set_vals)
    have n3: "nxt s3 = Suc (nxt s)" using sd ln(3) by (simp add: same_data_def)
    have z3: "size_s s3 = size_s s" using sd ln(2) by (simp add: same_data_def)
    have "wf_set ?s' t'"
      unfolding wf_set_def
    proof (intro conjI)
      show "root ?s' = rootp t'" using t'(1) by simp
      show "tr (heap ?s') None t'" using t'(2) by simp
      show "distinct (inord t')" using d' nn t'(3) by simp
      show "\<forall>a\<in>set (inord t'). a < nxt ?s'" using fr' n3 t'(3) by (auto simp: less_Suc_eq)
      show "sorted_wrt (<) (vals ?s' (inord t'))" by (rule so')
      show "size_s ?s' = int (length (inord t'))" using sz z3 t'(3) io by simp
      show "root_black ?s'" using rb3 by (simp add: root_black_def split: option.splits)
    qed
    moreover have "set (vals ?s' (inord t')) = insert x (set (vals s (inord t)))"
      unfolding vt io by auto
    ultimately show ?thesis using ins False by blast
  qed
qed

section \<open>The queries\<close>

lemma contains_loop_ok:
  fixes s :: "'a::linorder Set"
  assumes "tr (heap s) par t" "sorted_wrt (<) (vals s (inord t))"
  shows "contains_loop s x (rootp t) = Some (x \<in> set (vals s (inord t)))"
  using assms
proof (induction t arbitrary: par)
  case Lf
  then show ?case by (subst contains_loop.simps) simp
next
  case (Nd l a r)
  let ?v = "val (heap s a)"
  from Nd.prems(2) have lv: "\<forall>y\<in>set (vals s (inord l)). y < ?v" and rv: "\<forall>y\<in>set (vals s (inord r)). ?v < y"
    and sl: "sorted_wrt (<) (vals s (inord l))" and sr: "sorted_wrt (<) (vals s (inord r))"
    by (auto simp: sorted_wrt_append)
  from Nd.prems(1) have tl: "tr (heap s) (Some a) l" and tr: "tr (heap s) (Some a) r"
    and pl: "left (heap s a) = rootp l" and pr: "right (heap s a) = rootp r" by simp_all
  consider (lt) "x < ?v" | (gt) "?v < x" | (eq) "x = ?v" by (metis less_linear)
  then show ?case
  proof cases
    case lt
    then have "x \<in> set (vals s (inord (Nd l a r))) \<longleftrightarrow> x \<in> set (vals s (inord l))"
      using rv by auto
    with Nd.IH(1) [OF tl sl] lt pl show ?thesis
      by (subst contains_loop.simps) simp
  next
    case gt
    then have "x \<in> set (vals s (inord (Nd l a r))) \<longleftrightarrow> x \<in> set (vals s (inord r))"
      using lv by auto
    with Nd.IH(2) [OF tr sr] gt pr show ?thesis
      by (subst contains_loop.simps) (simp add: less_not_sym)
  next
    case eq
    then show ?thesis by (subst contains_loop.simps) simp
  qed
qed

lemma all_loop_ok:
  assumes "tr (heap s) par t"
  shows "all_loop s stack (rootp t) out = all_loop s stack None (out @ vals s (inord t))"
  using assms
proof (induction t arbitrary: par stack out)
  case Lf
  then show ?case by simp
next
  case (Nd l a r)
  from Nd.prems have tl: "tr (heap s) (Some a) l" and tr: "tr (heap s) (Some a) r"
    and pl: "left (heap s a) = rootp l" and pr: "right (heap s a) = rootp r" by simp_all
  have "all_loop s stack (rootp (Nd l a r)) out = all_loop s (stack @ [a]) (rootp l) out"
    using pl by (subst all_loop.simps) simp
  also have "\<dots> = all_loop s (stack @ [a]) None (out @ vals s (inord l))"
    by (rule Nd.IH(1) [OF tl])
  also have "\<dots> = all_loop s stack (rootp r) (out @ vals s (inord l) @ [val (heap s a)])"
    using pr by (subst all_loop.simps) simp
  also have "\<dots> = all_loop s stack None ((out @ vals s (inord l) @ [val (heap s a)]) @ vals s (inord r))"
    by (rule Nd.IH(2) [OF tr])
  finally show ?case by simp
qed

lemma minNode_ok:
  assumes "tr (heap s) par t" "rootp t = Some a"
  shows "minNode s a = Some (hd (inord t))"
  using assms
proof (induction t arbitrary: par a)
  case Lf
  then show ?case by simp
next
  case (Nd l b r)
  then have ab: "a = b" and pl: "left (heap s b) = rootp l" and tl: "tr (heap s) (Some b) l" by simp_all
  show ?case
  proof (cases l)
    case Lf
    with pl ab show ?thesis by (subst minNode.simps) simp
  next
    case (Nd ll c lr)
    with Nd.IH(1) [OF tl, of c] have "minNode s c = Some (hd (inord l))" by simp
    with pl ab Nd show ?thesis by (subst minNode.simps) (simp add: hd_append)
  qed
qed

lemma maxNode_ok:
  assumes "tr (heap s) par t" "rootp t = Some a"
  shows "maxNode s a = Some (last (inord t))"
  using assms
proof (induction t arbitrary: par a)
  case Lf
  then show ?case by simp
next
  case (Nd l b r)
  then have ab: "a = b" and pr: "right (heap s b) = rootp r" and tr: "tr (heap s) (Some b) r" by simp_all
  show ?case
  proof (cases r)
    case Lf
    with pr ab show ?thesis by (subst maxNode.simps) simp
  next
    case (Nd rl c rr)
    with Nd.IH(2) [OF tr, of c] have "maxNode s c = Some (last (inord r))" by simp
    with pr ab Nd show ?thesis by (subst maxNode.simps) simp
  qed
qed

lemma Contains_ok:
  fixes s :: "'a::linorder Set"
  shows "wf_set s t \<Longrightarrow> Contains s x = Some (x \<in> set (vals s (inord t)))"
  using contains_loop_ok [of s None t x] by (simp add: wf_set_def Contains_def)

lemma All_ok: "wf_set s t \<Longrightarrow> All_s s = Some (Inr (vals s (inord t)))"
  using all_loop_ok [of s None t "[]" "[]"]
  by (simp add: wf_set_def All_s_def) (subst all_loop.simps, simp)

lemma Min_ok:
  "wf_set s t \<Longrightarrow> Min_s z s = Some (if inord t = [] then (z, False) else (hd (vals s (inord t)), True))"
proof (cases t)
  case Lf
  assume "wf_set s t"
  with Lf show ?thesis by (simp add: wf_set_def Min_s_def)
next
  case (Nd l a r)
  assume w: "wf_set s t"
  with Nd minNode_ok [of s None t a] have m: "minNode s a = Some (hd (inord t))" by (simp add: wf_set_def)
  have ne: "inord t \<noteq> []" using Nd by simp
  have rt: "root s = Some a" using w Nd by (simp add: wf_set_def)
  from ne have "hd (vals s (inord t)) = val (heap s (hd (inord t)))" by (simp add: vals_def hd_map)
  with m ne rt show ?thesis by (simp add: Min_s_def)
qed

lemma Max_ok:
  "wf_set s t \<Longrightarrow> Max_s z s = Some (if inord t = [] then (z, False) else (last (vals s (inord t)), True))"
proof (cases t)
  case Lf
  assume "wf_set s t"
  with Lf show ?thesis by (simp add: wf_set_def Max_s_def)
next
  case (Nd l a r)
  assume w: "wf_set s t"
  with Nd maxNode_ok [of s None t a] have m: "maxNode s a = Some (last (inord t))" by (simp add: wf_set_def)
  have ne: "inord t \<noteq> []" using Nd by simp
  have rt: "root s = Some a" using w Nd by (simp add: wf_set_def)
  from ne have "last (vals s (inord t)) = val (heap s (last (inord t)))" by (simp add: vals_def last_map)
  with m ne rt show ?thesis by (simp add: Max_s_def)
qed

section \<open>\<^verbatim>\<open>deleteFixup\<close>\<close>

text \<open>
  From a state that satisfies the loop invariant, \<^verbatim>\<open>deleteFixup\<close> ends: it returns a
  tree with the same nodes in order and a black root, or it stops at a \<^verbatim>\<open>nil\<close> sibling.
\<close>

lemma deleteFixup_left_red_ok:
  assumes c: "ctx (root s) (heap s) (FL xp (Nd wl w wr) # c') (Some x)"
    and t: "tr (heap s) (Some xp) t" and rz: "rootp t = Some x"
    and d: "distinct (inord (plug (FL xp (Nd wl w wr) # c') t))"
    and rb: "root_black s"
  shows "\<exists>s1. deleteFixup_left_red s x xp w = Inr (s1, xp, rootp wl) \<and>
           ctx (root s1) (heap s1) (FL xp wl # FL w wr # c') (Some x) \<and>
           tr (heap s1) (Some xp) t \<and> root_black s1 \<and> same_data s s1 \<and>
           color (heap s1 xp) = red"
proof -
  from d have d': "distinct (cleft c' @ (inord t @ xp # inord wl @ w # inord wr) @ cright c')"
    by (simp add: inord_plug)
  let ?s0 = "set_color xp red (set_color w black s)"
  have c0: "ctx (root ?s0) (heap ?s0) c' (Some xp)" using c by simp
  have t0: "tr (heap ?s0) (cpar c') (Nd t xp (Nd wl w wr))" using c t rz by simp
  have d0: "distinct (inord (plug c' (Nd t xp (Nd wl w wr))))" using d' by (simp add: inord_plug)
  from leftRotate_focus [OF c0 t0 d0] obtain s1 where
    r: "leftRotate ?s0 xp = Inr s1" and c1: "ctx (root s1) (heap s1) c' (Some w)"
    and t1: "tr (heap s1) (cpar c') (Nd (Nd t xp wl) w wr)"
    and v1: "\<forall>a. val (heap s1 a) = val (heap ?s0 a) \<and> color (heap s1 a) = color (heap ?s0 a)"
    and sz: "size_s s1 = size_s ?s0" "nxt s1 = nxt ?s0" by blast
  from t1 have tx: "tr (heap s1) (Some xp) t" by simp
  have px: "parent (heap s1 x) = Some xp" by (rule tr_parent [OF tx rz])
  have b: "deleteFixup_left_red s x xp w = Inr (s1, xp, rootp wl)"
    using r px t1 by (simp add: deleteFixup_left_red_def)
  have c2: "ctx (root s1) (heap s1) (FL xp wl # FL w wr # c') (Some x)"
    using c1 t1 rz by simp
  have cw: "color (heap s1 w) = black" "color (heap s1 xp) = red" using v1 d' by auto
  have rb1: "root_black s1"
  proof (cases c')
    case Nil
    with c1 cw show ?thesis by (simp add: root_black_def)
  next
    case (Cons f c'')
    then have ne: "c' \<noteq> []" by simp
    have cs: "ctx (root s) (heap s) c' (Some xp)" using c by simp
    show ?thesis
      by (rule root_black_keep [OF ne cs c1 rb]) (use v1 d' in auto)
  qed
  from b c2 tx rb1 cw v1 sz show ?thesis by (auto simp: same_data_def)
qed

lemma deleteFixup_left_near_ok:
  assumes c: "ctx (root s) (heap s) (FL xp (Nd (Nd wll wl wlr) w wr) # c') (Some x)"
    and t: "tr (heap s) (Some xp) t" and rz: "rootp t = Some x"
    and d: "distinct (inord (plug (FL xp (Nd (Nd wll wl wlr) w wr) # c') t))"
    and rb: "root_black s"
  shows "\<exists>s1. deleteFixup_left_near s x w = Inr (s1, xp, Some wl) \<and>
           ctx (root s1) (heap s1) (FL xp (Nd wll wl (Nd wlr w wr)) # c') (Some x) \<and>
           tr (heap s1) (Some xp) t \<and> root_black s1 \<and> same_data s s1"
proof -
  from d have d': "distinct (cleft c' @ (inord t @ xp # (inord wll @ wl # inord wlr) @ w # inord wr) @ cright c')"
    by (simp add: inord_plug)
  let ?s0 = "set_color w red (set_color wl black s)"
  let ?c = "FR t xp # c'"
  have c0: "ctx (root ?s0) (heap ?s0) ?c (Some w)" using c t rz by simp
  have t0: "tr (heap ?s0) (cpar ?c) (Nd (Nd wll wl wlr) w wr)" using c by simp
  have d0: "distinct (inord (plug ?c (Nd (Nd wll wl wlr) w wr)))" using d' by (simp add: inord_plug)
  from rightRotate_focus [OF c0 t0 d0] obtain s1 where
    r: "rightRotate ?s0 w = Inr s1" and c1: "ctx (root s1) (heap s1) ?c (Some wl)"
    and t1: "tr (heap s1) (cpar ?c) (Nd wll wl (Nd wlr w wr))"
    and v1: "\<forall>a. val (heap s1 a) = val (heap ?s0 a) \<and> color (heap s1 a) = color (heap ?s0 a)"
    and sz: "size_s s1 = size_s ?s0" "nxt s1 = nxt ?s0" by blast
  from c1 have tx: "tr (heap s1) (Some xp) t" by simp
  have px: "parent (heap s1 x) = Some xp" by (rule tr_parent [OF tx rz])
  have b: "deleteFixup_left_near s x w = Inr (s1, xp, Some wl)"
    using r px c c1 by (simp add: deleteFixup_left_near_def)
  have c2: "ctx (root s1) (heap s1) (FL xp (Nd wll wl (Nd wlr w wr)) # c') (Some x)"
    using c1 t1 rz by simp
  have cs: "ctx (root s) (heap s) ?c (Some w)" using c t rz by simp
  have rb1: "root_black s1"
    by (rule root_black_keep [OF _ cs c1 rb]) (use v1 d' in auto)
  from b c2 tx rb1 v1 sz show ?thesis by (auto simp: same_data_def)
qed

lemma deleteFixup_left_far_ok:
  assumes c: "ctx (root s) (heap s) (FL xp (Nd wl w wr) # c') (Some x)"
    and t: "tr (heap s) (Some xp) t" and rz: "rootp t = Some x"
    and d: "distinct (inord (plug (FL xp (Nd wl w wr) # c') t))"
  shows "\<exists>s1. deleteFixup_left_far s xp w = Inr (s1, root s1) \<and>
           dfix_done s s1 (root s1) (inord (plug (FL xp (Nd wl w wr) # c') t))"
proof -
  from d have d': "distinct (cleft c' @ (inord t @ xp # inord wl @ w # inord wr) @ cright c')"
    by (simp add: inord_plug)
  let ?s2 = "set_color xp black (set_color w (color (heap s xp)) s)"
  let ?s3 = "case rootp wr of None \<Rightarrow> ?s2 | Some a \<Rightarrow> set_color a black ?s2"
  have c0: "ctx (root ?s3) (heap ?s3) c' (Some xp)" using c by (cases wr) auto
  have t0: "tr (heap ?s3) (cpar c') (Nd t xp (Nd wl w wr))" using c t rz by (cases wr) auto
  have d0: "distinct (inord (plug c' (Nd t xp (Nd wl w wr))))" using d' by (simp add: inord_plug)
  from leftRotate_focus [OF c0 t0 d0] obtain s1 where
    r: "leftRotate ?s3 xp = Inr s1" and c1: "ctx (root s1) (heap s1) c' (Some w)"
    and t1: "tr (heap s1) (cpar c') (Nd (Nd t xp wl) w wr)"
    and v1: "\<forall>a. val (heap s1 a) = val (heap ?s3 a) \<and> color (heap s1 a) = color (heap ?s3 a)"
    and sz: "size_s s1 = size_s ?s3" "nxt s1 = nxt ?s3" by blast
  have b: "deleteFixup_left_far s xp w = Inr (s1, root s1)"
    using r c by (simp add: deleteFixup_left_far_def Let_def)
  from c1 t1 have w: "root s1 = rootp (plug c' (Nd (Nd t xp wl) w wr)) \<and> tr (heap s1) None (plug c' (Nd (Nd t xp wl) w wr))"
    by (simp add: focus_plug)
  have io: "inord (plug c' (Nd (Nd t xp wl) w wr)) = inord (plug (FL xp (Nd wl w wr) # c') t)"
    by (simp add: inord_plug)
  have sd: "same_data s s1" using v1 sz by (cases wr) (auto simp: same_data_def)
  from b w io sd show ?thesis unfolding dfix_done_def by blast
qed

lemma dfix_done_trans: "same_data s s1 \<Longrightarrow> dfix_done s1 s2 x xs \<Longrightarrow> dfix_done s s2 x xs"
  by (auto simp: dfix_done_def same_data_def)

lemma deleteFixup_left_black_ok:
  assumes c: "ctx (root s) (heap s) (FL xp W # c') (Some x)"
    and t: "tr (heap s) (Some xp) t" and rz: "rootp t = Some x"
    and d: "distinct (inord (plug (FL xp W # c') t))"
    and rb: "root_black s"
    and res: "deleteFixup_left_black s x xp (rootp W) = Inr (s1, x1)"
  shows "same_data s s1 \<and>
         (dfix_done s s1 x1 (inord (plug (FL xp W # c') t)) \<or>
          (x1 = Some xp \<and> fix_inv s1 c' (Nd t xp W) xp \<and> color (heap s1 xp) = color (heap s xp)))"
proof (cases W)
  case Lf
  with res show ?thesis by (simp add: deleteFixup_left_black_def)
next
  case (Nd wl w wr)
  from c Nd have lw: "left (heap s w) = rootp wl" and rw: "right (heap s w) = rootp wr" by simp_all
  note c' = c [unfolded Nd] and d' = d [unfolded Nd]
  from d' have dd: "distinct (cleft c' @ (inord t @ xp # inord wl @ w # inord wr) @ cright c')"
    by (simp add: inord_plug)
  show ?thesis
  proof (cases "nil_or_black s (rootp wl) \<and> nil_or_black s (rootp wr)")
    case True
    with res Nd lw rw have e: "s1 = set_color w red s" "x1 = Some xp"
      by (simp_all add: deleteFixup_left_black_def)
    have rb1: "c' = [] \<or> root_black s1"
    proof (cases c')
      case Nil
      then show ?thesis by simp
    next
      case (Cons f c'')
      then have ne: "c' \<noteq> []" by simp
      have cs: "ctx (root s) (heap s) c' (Some xp)" using c by simp
      have cs1: "ctx (root s1) (heap s1) c' (Some xp)" using c e by simp
      have "root_black s1"
        by (rule root_black_keep [OF ne cs cs1 rb]) (use dd e in auto)
      then show ?thesis ..
    qed
    have "fix_inv s1 c' (Nd t xp W) xp"
      using c' t rz dd rb1 e Nd by (auto simp: fix_inv_def inord_plug)
    moreover have "color (heap s1 xp) = color (heap s xp)" using e dd by simp
    ultimately show ?thesis using e by (simp add: same_data_def)
  next
    case False
    show ?thesis
    proof (cases "nil_or_black s (rootp wr)")
      case True
      with False have "\<not> nil_or_black s (rootp wl)" by simp
      from not_nil_or_black [OF this] obtain wll wla wlr where wl: "wl = Nd wll wla wlr" by blast
      from deleteFixup_left_near_ok [OF c' [unfolded wl] t rz d' [unfolded wl] rb] obtain s2 where
        n: "deleteFixup_left_near s x w = Inr (s2, xp, Some wla)"
        and c2: "ctx (root s2) (heap s2) (FL xp (Nd wll wla (Nd wlr w wr)) # c') (Some x)"
        and t2: "tr (heap s2) (Some xp) t" and sd: "same_data s s2" by blast
      have d2: "distinct (inord (plug (FL xp (Nd wll wla (Nd wlr w wr)) # c') t))"
        using dd wl by (simp add: inord_plug)
      from deleteFixup_left_far_ok [OF c2 t2 rz d2] obtain s3 where
        f: "deleteFixup_left_far s2 xp wla = Inr (s3, root s3)"
        and dn: "dfix_done s2 s3 (root s3) (inord (plug (FL xp (Nd wll wla (Nd wlr w wr)) # c') t))"
        by blast
      from res Nd lw rw False True n f have e: "s1 = s3" "x1 = root s3"
        by (auto simp: deleteFixup_left_black_def)
      have io: "inord (plug (FL xp (Nd wll wla (Nd wlr w wr)) # c') t) = inord (plug (FL xp W # c') t)"
        using Nd wl by (simp add: inord_plug)
      from dfix_done_trans [OF sd dn] io e dn sd show ?thesis
        by (auto simp: dfix_done_def same_data_def)
    next
      case nb: False
      from deleteFixup_left_far_ok [OF c' t rz d'] obtain s3 where
        f: "deleteFixup_left_far s xp w = Inr (s3, root s3)"
        and dn: "dfix_done s s3 (root s3) (inord (plug (FL xp (Nd wl w wr) # c') t))"
        by blast
      from res Nd lw rw False nb f have e: "s1 = s3" "x1 = root s3"
        by (auto simp: deleteFixup_left_black_def)
      from dn e Nd show ?thesis by (auto simp: dfix_done_def)
    qed
  qed
qed

lemma deleteFixup_left_ok:
  assumes c: "ctx (root s) (heap s) (FL xp W # c') (Some x)"
    and t: "tr (heap s) (Some xp) t" and rz: "rootp t = Some x"
    and d: "distinct (inord (plug (FL xp W # c') t))"
    and rb: "root_black s"
    and res: "deleteFixup_left s x xp = Inr (s1, x1)"
  shows "same_data s s1 \<and>
         (dfix_done s s1 x1 (inord (plug (FL xp W # c') t)) \<or>
          (\<exists>c1 t1 x1a. x1 = Some x1a \<and> fix_inv s1 c1 t1 x1a \<and>
              inord (plug c1 t1) = inord (plug (FL xp W # c') t) \<and>
              (length c1 < length (FL xp W # c') \<or> color (heap s1 x1a) = red)))"
proof (cases W)
  case Lf
  with res c show ?thesis by (simp add: deleteFixup_left_def)
next
  case (Nd wl w wr)
  from c Nd have rxp: "right (heap s xp) = Some w" by simp
  show ?thesis
  proof (cases "color (heap s w) = red")
    case True
    from deleteFixup_left_red_ok [OF c [unfolded Nd] t rz d [unfolded Nd] rb] obtain s2 where
      r: "deleteFixup_left_red s x xp w = Inr (s2, xp, rootp wl)"
      and c2: "ctx (root s2) (heap s2) (FL xp wl # FL w wr # c') (Some x)"
      and t2: "tr (heap s2) (Some xp) t" and rb2: "root_black s2" and sd: "same_data s s2"
      and cr: "color (heap s2 xp) = red" by blast
    from res rxp True r have res2: "deleteFixup_left_black s2 x xp (rootp wl) = Inr (s1, x1)"
      by (simp add: deleteFixup_left_def)
    have d2: "distinct (inord (plug (FL xp wl # FL w wr # c') t))"
      using d Nd by (simp add: inord_plug)
    have io: "inord (plug (FL xp wl # FL w wr # c') t) = inord (plug (FL xp W # c') t)"
      using Nd by (simp add: inord_plug)
    from deleteFixup_left_black_ok [OF c2 t2 rz d2 rb2 res2]
    have sd2: "same_data s2 s1" and alt: "dfix_done s2 s1 x1 (inord (plug (FL xp wl # FL w wr # c') t)) \<or>
          (x1 = Some xp \<and> fix_inv s1 (FL w wr # c') (Nd t xp wl) xp \<and> color (heap s1 xp) = color (heap s2 xp))"
      by simp_all
    from alt show ?thesis
    proof
      assume "dfix_done s2 s1 x1 (inord (plug (FL xp wl # FL w wr # c') t))"
      from dfix_done_trans [OF sd this] io same_data_trans [OF sd sd2] show ?thesis by simp
    next
      assume a: "x1 = Some xp \<and> fix_inv s1 (FL w wr # c') (Nd t xp wl) xp \<and> color (heap s1 xp) = color (heap s2 xp)"
      have "inord (plug (FL w wr # c') (Nd t xp wl)) = inord (plug (FL xp W # c') t)"
        using Nd by (simp add: inord_plug)
      with a cr have "x1 = Some xp \<and> fix_inv s1 (FL w wr # c') (Nd t xp wl) xp \<and>
          inord (plug (FL w wr # c') (Nd t xp wl)) = inord (plug (FL xp W # c') t) \<and>
          (length (FL w wr # c') < length (FL xp W # c') \<or> color (heap s1 xp) = red)" by simp
      then show ?thesis using same_data_trans [OF sd sd2] by blast
    qed
  next
    case False
    from res rxp False Nd have res2: "deleteFixup_left_black s x xp (rootp W) = Inr (s1, x1)"
      by (simp add: deleteFixup_left_def)
    from deleteFixup_left_black_ok [OF c t rz d rb res2]
    have sd: "same_data s s1" and alt: "dfix_done s s1 x1 (inord (plug (FL xp W # c') t)) \<or>
          (x1 = Some xp \<and> fix_inv s1 c' (Nd t xp W) xp \<and> color (heap s1 xp) = color (heap s xp))"
      by simp_all
    from alt show ?thesis
    proof
      assume "dfix_done s s1 x1 (inord (plug (FL xp W # c') t))"
      with sd show ?thesis by simp
    next
      assume a: "x1 = Some xp \<and> fix_inv s1 c' (Nd t xp W) xp \<and> color (heap s1 xp) = color (heap s xp)"
      have "inord (plug c' (Nd t xp W)) = inord (plug (FL xp W # c') t)"
        by (simp add: inord_plug)
      moreover have "length c' < length (FL xp W # c')" by simp
      ultimately show ?thesis using a sd by blast
    qed
  qed
qed

lemma deleteFixup_right_red_ok:
  assumes c: "ctx (root s) (heap s) (FR (Nd wl w wr) xp # c') (Some x)"
    and t: "tr (heap s) (Some xp) t" and rz: "rootp t = Some x"
    and d: "distinct (inord (plug (FR (Nd wl w wr) xp # c') t))"
    and rb: "root_black s"
  shows "\<exists>s1. deleteFixup_right_red s x xp w = Inr (s1, xp, rootp wr) \<and>
           ctx (root s1) (heap s1) (FR wr xp # FR wl w # c') (Some x) \<and>
           tr (heap s1) (Some xp) t \<and> root_black s1 \<and> same_data s s1 \<and>
           color (heap s1 xp) = red"
proof -
  from d have d': "distinct (cleft c' @ (inord wl @ w # inord wr @ xp # inord t) @ cright c')"
    by (simp add: inord_plug)
  let ?s0 = "set_color xp red (set_color w black s)"
  have c0: "ctx (root ?s0) (heap ?s0) c' (Some xp)" using c by simp
  have t0: "tr (heap ?s0) (cpar c') (Nd (Nd wl w wr) xp t)" using c t rz by simp
  have d0: "distinct (inord (plug c' (Nd (Nd wl w wr) xp t)))" using d' by (simp add: inord_plug)
  from rightRotate_focus [OF c0 t0 d0] obtain s1 where
    r: "rightRotate ?s0 xp = Inr s1" and c1: "ctx (root s1) (heap s1) c' (Some w)"
    and t1: "tr (heap s1) (cpar c') (Nd wl w (Nd wr xp t))"
    and v1: "\<forall>a. val (heap s1 a) = val (heap ?s0 a) \<and> color (heap s1 a) = color (heap ?s0 a)"
    and sz: "size_s s1 = size_s ?s0" "nxt s1 = nxt ?s0" by blast
  from t1 have tx: "tr (heap s1) (Some xp) t" by simp
  have px: "parent (heap s1 x) = Some xp" by (rule tr_parent [OF tx rz])
  have b: "deleteFixup_right_red s x xp w = Inr (s1, xp, rootp wr)"
    using r px t1 by (simp add: deleteFixup_right_red_def)
  have c2: "ctx (root s1) (heap s1) (FR wr xp # FR wl w # c') (Some x)"
    using c1 t1 rz by simp
  have cw: "color (heap s1 w) = black" "color (heap s1 xp) = red" using v1 d' by auto
  have rb1: "root_black s1"
  proof (cases c')
    case Nil
    with c1 cw show ?thesis by (simp add: root_black_def)
  next
    case (Cons f c'')
    then have ne: "c' \<noteq> []" by simp
    have cs: "ctx (root s) (heap s) c' (Some xp)" using c by simp
    show ?thesis
      by (rule root_black_keep [OF ne cs c1 rb]) (use v1 d' in auto)
  qed
  from b c2 tx rb1 cw v1 sz show ?thesis by (auto simp: same_data_def)
qed

lemma deleteFixup_right_near_ok:
  assumes c: "ctx (root s) (heap s) (FR (Nd wl w (Nd wrl wr wrr)) xp # c') (Some x)"
    and t: "tr (heap s) (Some xp) t" and rz: "rootp t = Some x"
    and d: "distinct (inord (plug (FR (Nd wl w (Nd wrl wr wrr)) xp # c') t))"
    and rb: "root_black s"
  shows "\<exists>s1. deleteFixup_right_near s x w = Inr (s1, xp, Some wr) \<and>
           ctx (root s1) (heap s1) (FR (Nd (Nd wl w wrl) wr wrr) xp # c') (Some x) \<and>
           tr (heap s1) (Some xp) t \<and> root_black s1 \<and> same_data s s1"
proof -
  from d have d': "distinct (cleft c' @ ((inord wl @ w # inord wrl @ wr # inord wrr) @ xp # inord t) @ cright c')"
    by (simp add: inord_plug)
  let ?s0 = "set_color w red (set_color wr black s)"
  let ?c = "FL xp t # c'"
  have c0: "ctx (root ?s0) (heap ?s0) ?c (Some w)" using c t rz by simp
  have t0: "tr (heap ?s0) (cpar ?c) (Nd wl w (Nd wrl wr wrr))" using c by simp
  have d0: "distinct (inord (plug ?c (Nd wl w (Nd wrl wr wrr))))" using d' by (simp add: inord_plug)
  from leftRotate_focus [OF c0 t0 d0] obtain s1 where
    r: "leftRotate ?s0 w = Inr s1" and c1: "ctx (root s1) (heap s1) ?c (Some wr)"
    and t1: "tr (heap s1) (cpar ?c) (Nd (Nd wl w wrl) wr wrr)"
    and v1: "\<forall>a. val (heap s1 a) = val (heap ?s0 a) \<and> color (heap s1 a) = color (heap ?s0 a)"
    and sz: "size_s s1 = size_s ?s0" "nxt s1 = nxt ?s0" by blast
  from c1 have tx: "tr (heap s1) (Some xp) t" by simp
  have px: "parent (heap s1 x) = Some xp" by (rule tr_parent [OF tx rz])
  have b: "deleteFixup_right_near s x w = Inr (s1, xp, Some wr)"
    using r px c c1 by (simp add: deleteFixup_right_near_def)
  have c2: "ctx (root s1) (heap s1) (FR (Nd (Nd wl w wrl) wr wrr) xp # c') (Some x)"
    using c1 t1 rz by simp
  have cs: "ctx (root s) (heap s) ?c (Some w)" using c t rz by simp
  have rb1: "root_black s1"
    by (rule root_black_keep [OF _ cs c1 rb]) (use v1 d' in auto)
  from b c2 tx rb1 v1 sz show ?thesis by (auto simp: same_data_def)
qed

lemma deleteFixup_right_far_ok:
  assumes c: "ctx (root s) (heap s) (FR (Nd wl w wr) xp # c') (Some x)"
    and t: "tr (heap s) (Some xp) t" and rz: "rootp t = Some x"
    and d: "distinct (inord (plug (FR (Nd wl w wr) xp # c') t))"
  shows "\<exists>s1. deleteFixup_right_far s xp w = Inr (s1, root s1) \<and>
           dfix_done s s1 (root s1) (inord (plug (FR (Nd wl w wr) xp # c') t))"
proof -
  from d have d': "distinct (cleft c' @ (inord wl @ w # inord wr @ xp # inord t) @ cright c')"
    by (simp add: inord_plug)
  let ?s2 = "set_color xp black (set_color w (color (heap s xp)) s)"
  let ?s3 = "case rootp wl of None \<Rightarrow> ?s2 | Some a \<Rightarrow> set_color a black ?s2"
  have c0: "ctx (root ?s3) (heap ?s3) c' (Some xp)" using c by (cases wl) auto
  have t0: "tr (heap ?s3) (cpar c') (Nd (Nd wl w wr) xp t)" using c t rz by (cases wl) auto
  have d0: "distinct (inord (plug c' (Nd (Nd wl w wr) xp t)))" using d' by (simp add: inord_plug)
  from rightRotate_focus [OF c0 t0 d0] obtain s1 where
    r: "rightRotate ?s3 xp = Inr s1" and c1: "ctx (root s1) (heap s1) c' (Some w)"
    and t1: "tr (heap s1) (cpar c') (Nd wl w (Nd wr xp t))"
    and v1: "\<forall>a. val (heap s1 a) = val (heap ?s3 a) \<and> color (heap s1 a) = color (heap ?s3 a)"
    and sz: "size_s s1 = size_s ?s3" "nxt s1 = nxt ?s3" by blast
  have b: "deleteFixup_right_far s xp w = Inr (s1, root s1)"
    using r c by (simp add: deleteFixup_right_far_def Let_def)
  from c1 t1 have w: "root s1 = rootp (plug c' (Nd wl w (Nd wr xp t))) \<and> tr (heap s1) None (plug c' (Nd wl w (Nd wr xp t)))"
    by (simp add: focus_plug)
  have io: "inord (plug c' (Nd wl w (Nd wr xp t))) = inord (plug (FR (Nd wl w wr) xp # c') t)"
    by (simp add: inord_plug)
  have sd: "same_data s s1" using v1 sz by (cases wl) (auto simp: same_data_def)
  from b w io sd show ?thesis unfolding dfix_done_def by blast
qed

lemma deleteFixup_right_black_ok:
  assumes c: "ctx (root s) (heap s) (FR W xp # c') (Some x)"
    and t: "tr (heap s) (Some xp) t" and rz: "rootp t = Some x"
    and d: "distinct (inord (plug (FR W xp # c') t))"
    and rb: "root_black s"
    and res: "deleteFixup_right_black s x xp (rootp W) = Inr (s1, x1)"
  shows "same_data s s1 \<and>
         (dfix_done s s1 x1 (inord (plug (FR W xp # c') t)) \<or>
          (x1 = Some xp \<and> fix_inv s1 c' (Nd W xp t) xp \<and> color (heap s1 xp) = color (heap s xp)))"
proof (cases W)
  case Lf
  with res show ?thesis by (simp add: deleteFixup_right_black_def)
next
  case (Nd wl w wr)
  from c Nd have lw: "left (heap s w) = rootp wl" and rw: "right (heap s w) = rootp wr" by simp_all
  note c' = c [unfolded Nd] and d' = d [unfolded Nd]
  from d' have dd: "distinct (cleft c' @ (inord wl @ w # inord wr @ xp # inord t) @ cright c')"
    by (simp add: inord_plug)
  show ?thesis
  proof (cases "nil_or_black s (rootp wr) \<and> nil_or_black s (rootp wl)")
    case True
    with res Nd lw rw have e: "s1 = set_color w red s" "x1 = Some xp"
      by (simp_all add: deleteFixup_right_black_def)
    have rb1: "c' = [] \<or> root_black s1"
    proof (cases c')
      case Nil
      then show ?thesis by simp
    next
      case (Cons f c'')
      then have ne: "c' \<noteq> []" by simp
      have cs: "ctx (root s) (heap s) c' (Some xp)" using c by simp
      have cs1: "ctx (root s1) (heap s1) c' (Some xp)" using c e by simp
      have "root_black s1"
        by (rule root_black_keep [OF ne cs cs1 rb]) (use dd e in auto)
      then show ?thesis ..
    qed
    have "fix_inv s1 c' (Nd W xp t) xp"
      using c' t rz dd rb1 e Nd by (auto simp: fix_inv_def inord_plug)
    moreover have "color (heap s1 xp) = color (heap s xp)" using e dd by simp
    ultimately show ?thesis using e by (simp add: same_data_def)
  next
    case False
    show ?thesis
    proof (cases "nil_or_black s (rootp wl)")
      case True
      with False have "\<not> nil_or_black s (rootp wr)" by simp
      from not_nil_or_black [OF this] obtain wrl wra wrr where wr: "wr = Nd wrl wra wrr" by blast
      from deleteFixup_right_near_ok [OF c' [unfolded wr] t rz d' [unfolded wr] rb] obtain s2 where
        n: "deleteFixup_right_near s x w = Inr (s2, xp, Some wra)"
        and c2: "ctx (root s2) (heap s2) (FR (Nd (Nd wl w wrl) wra wrr) xp # c') (Some x)"
        and t2: "tr (heap s2) (Some xp) t" and sd: "same_data s s2" by blast
      have d2: "distinct (inord (plug (FR (Nd (Nd wl w wrl) wra wrr) xp # c') t))"
        using dd wr by (simp add: inord_plug)
      from deleteFixup_right_far_ok [OF c2 t2 rz d2] obtain s3 where
        f: "deleteFixup_right_far s2 xp wra = Inr (s3, root s3)"
        and dn: "dfix_done s2 s3 (root s3) (inord (plug (FR (Nd (Nd wl w wrl) wra wrr) xp # c') t))"
        by blast
      from res Nd lw rw False True n f have e: "s1 = s3" "x1 = root s3"
        by (auto simp: deleteFixup_right_black_def)
      have io: "inord (plug (FR (Nd (Nd wl w wrl) wra wrr) xp # c') t) = inord (plug (FR W xp # c') t)"
        using Nd wr by (simp add: inord_plug)
      from dfix_done_trans [OF sd dn] io e dn sd show ?thesis
        by (auto simp: dfix_done_def same_data_def)
    next
      case nb: False
      from deleteFixup_right_far_ok [OF c' t rz d'] obtain s3 where
        f: "deleteFixup_right_far s xp w = Inr (s3, root s3)"
        and dn: "dfix_done s s3 (root s3) (inord (plug (FR (Nd wl w wr) xp # c') t))"
        by blast
      from res Nd lw rw False nb f have e: "s1 = s3" "x1 = root s3"
        by (auto simp: deleteFixup_right_black_def)
      from dn e Nd show ?thesis by (auto simp: dfix_done_def)
    qed
  qed
qed

lemma deleteFixup_right_ok:
  assumes c: "ctx (root s) (heap s) (FR W xp # c') (Some x)"
    and t: "tr (heap s) (Some xp) t" and rz: "rootp t = Some x"
    and d: "distinct (inord (plug (FR W xp # c') t))"
    and rb: "root_black s"
    and res: "deleteFixup_right s x xp = Inr (s1, x1)"
  shows "same_data s s1 \<and>
         (dfix_done s s1 x1 (inord (plug (FR W xp # c') t)) \<or>
          (\<exists>c1 t1 x1a. x1 = Some x1a \<and> fix_inv s1 c1 t1 x1a \<and>
              inord (plug c1 t1) = inord (plug (FR W xp # c') t) \<and>
              (length c1 < length (FR W xp # c') \<or> color (heap s1 x1a) = red)))"
proof (cases W)
  case Lf
  with res c show ?thesis by (simp add: deleteFixup_right_def)
next
  case (Nd wl w wr)
  from c Nd have rxp: "left (heap s xp) = Some w" by simp
  show ?thesis
  proof (cases "color (heap s w) = red")
    case True
    from deleteFixup_right_red_ok [OF c [unfolded Nd] t rz d [unfolded Nd] rb] obtain s2 where
      r: "deleteFixup_right_red s x xp w = Inr (s2, xp, rootp wr)"
      and c2: "ctx (root s2) (heap s2) (FR wr xp # FR wl w # c') (Some x)"
      and t2: "tr (heap s2) (Some xp) t" and rb2: "root_black s2" and sd: "same_data s s2"
      and cr: "color (heap s2 xp) = red" by blast
    from res rxp True r have res2: "deleteFixup_right_black s2 x xp (rootp wr) = Inr (s1, x1)"
      by (simp add: deleteFixup_right_def)
    have d2: "distinct (inord (plug (FR wr xp # FR wl w # c') t))"
      using d Nd by (simp add: inord_plug)
    have io: "inord (plug (FR wr xp # FR wl w # c') t) = inord (plug (FR W xp # c') t)"
      using Nd by (simp add: inord_plug)
    from deleteFixup_right_black_ok [OF c2 t2 rz d2 rb2 res2]
    have sd2: "same_data s2 s1" and alt: "dfix_done s2 s1 x1 (inord (plug (FR wr xp # FR wl w # c') t)) \<or>
          (x1 = Some xp \<and> fix_inv s1 (FR wl w # c') (Nd wr xp t) xp \<and> color (heap s1 xp) = color (heap s2 xp))"
      by simp_all
    from alt show ?thesis
    proof
      assume "dfix_done s2 s1 x1 (inord (plug (FR wr xp # FR wl w # c') t))"
      from dfix_done_trans [OF sd this] io same_data_trans [OF sd sd2] show ?thesis by simp
    next
      assume a: "x1 = Some xp \<and> fix_inv s1 (FR wl w # c') (Nd wr xp t) xp \<and> color (heap s1 xp) = color (heap s2 xp)"
      have "inord (plug (FR wl w # c') (Nd wr xp t)) = inord (plug (FR W xp # c') t)"
        using Nd by (simp add: inord_plug)
      with a cr have "x1 = Some xp \<and> fix_inv s1 (FR wl w # c') (Nd wr xp t) xp \<and>
          inord (plug (FR wl w # c') (Nd wr xp t)) = inord (plug (FR W xp # c') t) \<and>
          (length (FR wl w # c') < length (FR W xp # c') \<or> color (heap s1 xp) = red)" by simp
      then show ?thesis using same_data_trans [OF sd sd2] by blast
    qed
  next
    case False
    from res rxp False Nd have res2: "deleteFixup_right_black s x xp (rootp W) = Inr (s1, x1)"
      by (simp add: deleteFixup_right_def)
    from deleteFixup_right_black_ok [OF c t rz d rb res2]
    have sd: "same_data s s1" and alt: "dfix_done s s1 x1 (inord (plug (FR W xp # c') t)) \<or>
          (x1 = Some xp \<and> fix_inv s1 c' (Nd W xp t) xp \<and> color (heap s1 xp) = color (heap s xp))"
      by simp_all
    from alt show ?thesis
    proof
      assume "dfix_done s s1 x1 (inord (plug (FR W xp # c') t))"
      with sd show ?thesis by simp
    next
      assume a: "x1 = Some xp \<and> fix_inv s1 c' (Nd W xp t) xp \<and> color (heap s1 xp) = color (heap s xp)"
      have "inord (plug c' (Nd W xp t)) = inord (plug (FR W xp # c') t)"
        by (simp add: inord_plug)
      moreover have "length c' < length (FR W xp # c')" by simp
      ultimately show ?thesis using a sd by blast
    qed
  qed
qed

lemma fix_inv_root:
  assumes "fix_inv s c t x"
  shows "(Some x = root s) = (c = [])"
proof (cases "c = []")
  case True
  with assms show ?thesis by (simp add: fix_inv_def)
next
  case False
  from assms have cx: "ctx (root s) (heap s) c (Some x)" and rz: "rootp t = Some x"
    and d: "distinct (inord (plug c t))" by (simp_all add: fix_inv_def)
  from croot_in [OF False] obtain r where r: "\<forall>p. croot c p = Some r"
    and rin: "r \<in> set (cleft c) \<or> r \<in> set (cright c)" by blast
  from ctx_croot [OF cx] r have rs: "root s = Some r" by simp
  from rootp_in [OF rz] d rin have "r \<noteq> x" by (auto simp: inord_plug)
  with rs False show ?thesis by simp
qed

lemma deleteFixup_exit:
  assumes "fix_inv s c t x"
  shows "fix_post s (set_color x black s) (inord (plug c t))"
proof -
  from assms have cx: "ctx (root s) (heap s) c (Some x)" and rz: "rootp t = Some x"
    and t0: "tr (heap s) (cpar c) t" and rb: "c = [] \<or> root_black s"
    by (simp_all add: fix_inv_def)
  let ?s' = "set_color x black s"
  from cx t0 rz have whole: "root ?s' = rootp (plug c t)" "tr (heap ?s') None (plug c t)"
    using focus_plug [of "root s" c t "heap s"] by simp_all
  have "root_black ?s'"
  proof (cases "c = []")
    case True
    with cx show ?thesis by (simp add: root_black_def)
  next
    case False
    with rb have "root_black s" by simp
    then show ?thesis by (auto simp: root_black_def split: option.splits)
  qed
  with whole show ?thesis unfolding fix_post_def by (auto simp: same_data_def)
qed

lemma deleteFixup_done_exit:
  assumes "dfix_done s s1 x1 xs" "xs \<noteq> []"
  shows "\<exists>s'. deleteFixup s1 x1 = Some (Inr s') \<and> fix_post s s' xs"
proof -
  from assms obtain t' where t': "root s1 = rootp t'" "tr (heap s1) None t'" "inord t' = xs"
    and x1: "x1 = root s1" and sd: "same_data s s1" by (auto simp: dfix_done_def)
  from t'(3) assms(2) obtain l r a where T: "t' = Nd l a r" by (cases t') auto
  with t' x1 have xa: "x1 = Some a" "root s1 = Some a" by simp_all
  have "deleteFixup s1 x1 = Some (Inr (set_color a black s1))"
    using xa by (subst deleteFixup.simps) simp
  moreover have "fix_post s (set_color a black s1) xs"
    unfolding fix_post_def using t' T sd xa
    by (auto simp: root_black_def same_data_def intro!: exI [of _ t'])
  ultimately show ?thesis by blast
qed

lemma deleteFixup_ok:
  "fix_inv s c t x \<Longrightarrow>
   \<exists>res. deleteFixup s (Some x) = Some res \<and>
         (\<forall>s'. res = Inr s' \<longrightarrow> fix_post s s' (inord (plug c t)))"
proof (induction "length c" arbitrary: s c t x rule: less_induct)
  case less
  note inv = less.prems
  from inv have cx: "ctx (root s) (heap s) c (Some x)" and rz: "rootp t = Some x"
    and t0: "tr (heap s) (cpar c) t" and d: "distinct (inord (plug c t))"
    and rb: "c = [] \<or> root_black s"
    by (simp_all add: fix_inv_def)
  from rz have ne: "inord (plug c t) \<noteq> []" by (cases t) (auto simp: inord_plug)
  show ?case
  proof (cases "Some x \<noteq> root s \<and> color (heap s x) = black")
    case False
    then have "deleteFixup s (Some x) = Some (Inr (set_color x black s))"
      by (subst deleteFixup.simps) auto
    with deleteFixup_exit [OF inv] show ?thesis by simp
  next
    case True
    with fix_inv_root [OF inv] have cne: "c \<noteq> []" by auto
    with rb have rbs: "root_black s" by simp
    from cne obtain f c' where c: "c = f # c'" by (cases c) auto
    obtain xp W where f: "f = FL xp W \<or> f = FR W xp" by (cases f) auto
    with c have cp: "cpar c = Some xp" by auto
    from tr_parent [OF t0 rz] cp have px: "parent (heap s x) = Some xp" by simp
    let ?body = "if Some x = left (heap s xp) then deleteFixup_left s x xp else deleteFixup_right s x xp"
    have unf: "deleteFixup s (Some x) =
        (case ?body of Inl e \<Rightarrow> Some (Inl e) | Inr (s1, x1) \<Rightarrow> deleteFixup s1 x1)"
      using True px by (subst deleteFixup.simps) simp
    show ?thesis
    proof (cases ?body)
      case (Inl e)
      with unf show ?thesis by simp
    next
      case (Inr p)
      obtain s1 x1 where p: "p = (s1, x1)" by (cases p)
      have post: "same_data s s1 \<and>
         (dfix_done s s1 x1 (inord (plug c t)) \<or>
          (\<exists>c1 t1 x1a. x1 = Some x1a \<and> fix_inv s1 c1 t1 x1a \<and>
              inord (plug c1 t1) = inord (plug c t) \<and>
              (length c1 < length c \<or> color (heap s1 x1a) = red)))"
        using f
      proof
        assume fl: "f = FL xp W"
        with cx c have "Some x = left (heap s xp)" by simp
        with Inr p have res: "deleteFixup_left s x xp = Inr (s1, x1)" by simp
        from deleteFixup_left_ok [OF cx [unfolded c fl] _ rz d [unfolded c fl] rbs res] t0 cp
        show ?thesis unfolding c fl by simp
      next
        assume fr: "f = FR W xp"
        have "rootp W \<noteq> Some x"
        proof
          assume "rootp W = Some x"
          from rootp_in [OF this] rootp_in [OF rz] d c fr show False
            by (auto simp: inord_plug)
        qed
        with cx c fr have "Some x \<noteq> left (heap s xp)" by auto
        with Inr p have res: "deleteFixup_right s x xp = Inr (s1, x1)" by simp
        from deleteFixup_right_ok [OF cx [unfolded c fr] _ rz d [unfolded c fr] rbs res] t0 cp
        show ?thesis unfolding c fr by simp
      qed
      then have sd: "same_data s s1" by simp
      from unf Inr p have step: "deleteFixup s (Some x) = deleteFixup s1 x1" by simp
      from post have "dfix_done s s1 x1 (inord (plug c t)) \<or>
          (\<exists>c1 t1 x1a. x1 = Some x1a \<and> fix_inv s1 c1 t1 x1a \<and>
              inord (plug c1 t1) = inord (plug c t) \<and>
              (length c1 < length c \<or> color (heap s1 x1a) = red))" by simp
      then show ?thesis
      proof
        assume "dfix_done s s1 x1 (inord (plug c t))"
        from deleteFixup_done_exit [OF this ne] step show ?thesis by auto
      next
        assume "\<exists>c1 t1 x1a. x1 = Some x1a \<and> fix_inv s1 c1 t1 x1a \<and>
              inord (plug c1 t1) = inord (plug c t) \<and>
              (length c1 < length c \<or> color (heap s1 x1a) = red)"
        then obtain c1 t1 x1a where x1: "x1 = Some x1a" and i1: "fix_inv s1 c1 t1 x1a"
          and io: "inord (plug c1 t1) = inord (plug c t)"
          and m: "length c1 < length c \<or> color (heap s1 x1a) = red" by blast
        from m show ?thesis
        proof
          assume "length c1 < length c"
          from less.hyps [OF this i1] obtain res where
            "deleteFixup s1 (Some x1a) = Some res"
            "\<forall>s'. res = Inr s' \<longrightarrow> fix_post s1 s' (inord (plug c1 t1))" by blast
          with step x1 io fix_post_trans [OF sd] show ?thesis by auto
        next
          assume "color (heap s1 x1a) = red"
          then have "deleteFixup s1 (Some x1a) = Some (Inr (set_color x1a black s1))"
            by (subst deleteFixup.simps) simp
          with step x1 io fix_post_trans [OF sd deleteFixup_exit [OF i1]] show ?thesis by auto
        qed
      qed
    qed
  qed
qed

section \<open>\<^verbatim>\<open>rbTransplant\<close>\<close>

lemma rbTransplant_simps [simp]:
  "size_s (rbTransplant s u v) = size_s s" "nxt (rbTransplant s u v) = nxt s"
  "val (heap (rbTransplant s u v) a) = val (heap s a)"
  "color (heap (rbTransplant s u v) a) = color (heap s a)"
  "parent (heap (rbTransplant s u v) a) = (if v = Some a then parent (heap s u) else parent (heap s a))"
  by (auto simp: rbTransplant_def Let_def split: option.splits)

lemma rbTransplant_root:
  "root (rbTransplant s u v) = (if parent (heap s u) = None then v else root s)"
  by (auto simp: rbTransplant_def Let_def split: option.splits)

lemma rbTransplant_left:
  "parent (heap s u) \<noteq> Some a \<Longrightarrow> left (heap (rbTransplant s u v) a) = left (heap s a)"
  by (auto simp: rbTransplant_def Let_def split: option.splits)

lemma rbTransplant_right:
  "parent (heap s u) \<noteq> Some a \<Longrightarrow> right (heap (rbTransplant s u v) a) = right (heap s a)"
  by (auto simp: rbTransplant_def Let_def split: option.splits)

lemma tr_cong:
  assumes "tr h par t"
    and "\<forall>a\<in>set (inord t). left (h' a) = left (h a) \<and> right (h' a) = right (h a) \<and> parent (h' a) = parent (h a)"
  shows "tr h' par t"
  using assms by (induction t arbitrary: par) auto

lemma tr_reparent:
  assumes "tr h par t" "distinct (inord t)"
    and "\<forall>a\<in>set (inord t). left (h' a) = left (h a) \<and> right (h' a) = right (h a) \<and>
           (rootp t \<noteq> Some a \<longrightarrow> parent (h' a) = parent (h a))"
    and "\<forall>a. rootp t = Some a \<longrightarrow> parent (h' a) = par'"
  shows "tr h' par' t"
proof (cases t)
  case Lf
  then show ?thesis by simp
next
  case (Nd l a r)
  with assms have "tr h (Some a) l" "tr h (Some a) r" by simp_all
  moreover from assms(2,3) Nd have
    "\<forall>b\<in>set (inord l). left (h' b) = left (h b) \<and> right (h' b) = right (h b) \<and> parent (h' b) = parent (h b)"
    "\<forall>b\<in>set (inord r). left (h' b) = left (h b) \<and> right (h' b) = right (h b) \<and> parent (h' b) = parent (h b)"
    by auto
  ultimately have "tr h' (Some a) l" "tr h' (Some a) r" by (auto intro: tr_cong)
  with assms Nd show ?thesis by simp
qed

lemma ctx_cong:
  assumes "ctx rt h c p"
    and "\<forall>a. a \<in> set (cleft c) \<or> a \<in> set (cright c) \<longrightarrow>
           left (h' a) = left (h a) \<and> right (h' a) = right (h a) \<and> parent (h' a) = parent (h a)"
  shows "ctx rt h' c p"
  using assms
proof (induction c arbitrary: p rule: cleft.induct)
  case (1 p)
  then show ?case by simp
next
  case (2 a r c)
  then have "tr h' (Some a) r" by (auto intro!: tr_cong [of h _ r h'])
  moreover from 2 have "ctx rt h' c (Some a)" by auto
  ultimately show ?case using 2 by auto
next
  case (3 l a c)
  then have "tr h' (Some a) l" by (auto intro!: tr_cong [of h _ l h'])
  moreover from 3 have "ctx rt h' c (Some a)" by auto
  ultimately show ?case using 3 by auto
qed

lemma rbTransplant_focus:
  assumes c: "ctx (root s) (heap s) c (Some u)" and pu: "parent (heap s u) = cpar c"
    and tv: "tr (heap s) par V"
    and d: "distinct (cleft c @ u # inord V @ cright c)"
  shows "ctx (root (rbTransplant s u (rootp V))) (heap (rbTransplant s u (rootp V))) c (rootp V) \<and>
         tr (heap (rbTransplant s u (rootp V))) (cpar c) V"
proof -
  let ?s = "rbTransplant s u (rootp V)"
  have rv: "\<And>a. rootp V = Some a \<Longrightarrow> a \<notin> set (cleft c) \<and> a \<notin> set (cright c)"
    using d by (auto dest: rootp_in)
  have tV: "tr (heap ?s) (cpar c) V"
  proof (rule tr_reparent [OF tv])
    show "distinct (inord V)" using d by simp
    show "\<forall>a\<in>set (inord V). left (heap ?s a) = left (heap s a) \<and> right (heap ?s a) = right (heap s a) \<and>
           (rootp V \<noteq> Some a \<longrightarrow> parent (heap ?s a) = parent (heap s a))"
    proof
      fix a assume a: "a \<in> set (inord V)"
      with d have "a \<notin> set (cleft c)" "a \<notin> set (cright c)" by auto
      with cpar_in [of c a] pu have "parent (heap s u) \<noteq> Some a" by auto
      then show "left (heap ?s a) = left (heap s a) \<and> right (heap ?s a) = right (heap s a) \<and>
           (rootp V \<noteq> Some a \<longrightarrow> parent (heap ?s a) = parent (heap s a))"
        by (auto simp: rbTransplant_left rbTransplant_right)
    qed
    show "\<forall>a. rootp V = Some a \<longrightarrow> parent (heap ?s a) = cpar c" using pu by simp
  qed
  have cV: "ctx (root ?s) (heap ?s) c (rootp V)"
  proof (cases c)
    case Nil
    with pu show ?thesis by (simp add: rbTransplant_root)
  next
    case (Cons f c')
    obtain g W where f: "f = FL g W \<or> f = FR W g" by (cases f) auto
    with Cons pu have pg: "parent (heap s u) = Some g" by auto
    then have rt: "root ?s = root s" by (simp add: rbTransplant_root)
    from f Cons d have gd: "g \<notin> set (cleft c') \<and> g \<notin> set (cright c') \<and> g \<notin> set (inord W) \<and> g \<noteq> u"
      by auto
    from f Cons c have cc': "ctx (root s) (heap s) c' (Some g)" and tW: "tr (heap s) (Some g) W" by auto
    have nv: "\<And>a. a \<in> set (cleft c) \<or> a \<in> set (cright c) \<Longrightarrow> rootp V \<noteq> Some a"
      using rv by blast
    have same: "left (heap ?s a) = left (heap s a) \<and> right (heap ?s a) = right (heap s a) \<and>
        parent (heap ?s a) = parent (heap s a)"
      if "a \<in> set (cleft c') \<or> a \<in> set (cright c') \<or> a \<in> set (inord W)" for a
    proof -
      from that gd have "a \<noteq> g" by auto
      with pg have "parent (heap s u) \<noteq> Some a" by simp
      moreover from that f Cons have "a \<in> set (cleft c) \<or> a \<in> set (cright c)" by auto
      from nv [OF this] have "rootp V \<noteq> Some a" .
      ultimately show ?thesis by (simp add: rbTransplant_left rbTransplant_right)
    qed
    have c1: "ctx (root s) (heap ?s) c' (Some g)"
      by (rule ctx_cong [OF cc']) (use same in blast)
    have t1: "tr (heap ?s) (Some g) W"
      by (rule tr_cong [OF tW]) (use same in blast)
    have "g \<in> set (cleft c) \<or> g \<in> set (cright c)" using f Cons by auto
    from nv [OF this] have "parent (heap ?s g) = parent (heap s g)" by simp
    with f Cons c have pgg: "parent (heap ?s g) = cpar c'" by auto
    from f show ?thesis
    proof
      assume fl: "f = FL g W"
      with Cons c have "left (heap s g) = Some u" "right (heap s g) = rootp W" by simp_all
      with pg have "left (heap ?s g) = rootp V" "right (heap ?s g) = rootp W"
        by (auto simp: rbTransplant_def Let_def split: option.splits)
      with c1 t1 pgg rt fl Cons show ?thesis by simp
    next
      assume fr: "f = FR W g"
      with Cons c have "right (heap s g) = Some u" "left (heap s g) = rootp W" by simp_all
      moreover from fr Cons d have "rootp W \<noteq> Some u" by (auto dest: rootp_in)
      ultimately have "right (heap ?s g) = rootp V" "left (heap ?s g) = rootp W" using pg
        by (auto simp: rbTransplant_def Let_def split: option.splits)
      with c1 t1 pgg rt fr Cons show ?thesis by simp
    qed
  qed
  from cV tV show ?thesis ..
qed

lemma rbTransplant_tr_other:
  assumes pu: "parent (heap s u) = cpar c"
    and "set (inord T) \<inter> (set (cleft c) \<union> set (cright c)) = {}"
    and "\<forall>a. v = Some a \<longrightarrow> a \<notin> set (inord T)"
    and "tr (heap s) p T"
  shows "tr (heap (rbTransplant s u v)) p T"
proof (rule tr_cong [OF assms(4)], rule ballI)
  fix a assume a: "a \<in> set (inord T)"
  with assms(2) cpar_in [of c a] pu have "parent (heap s u) \<noteq> Some a" by auto
  with a assms(3) show "left (heap (rbTransplant s u v) a) = left (heap s a) \<and>
      right (heap (rbTransplant s u v) a) = right (heap s a) \<and>
      parent (heap (rbTransplant s u v) a) = parent (heap s a)"
    by (auto simp: rbTransplant_left rbTransplant_right)
qed

section \<open>\<^verbatim>\<open>deleteNode\<close>\<close>

text \<open>
  \<^verbatim>\<open>deleteNode\<close> ends; when it returns, the node is no longer in the tree, the other
  nodes are in the same order, and \<^verbatim>\<open>size\<close> is one less.
\<close>

lemma root_black_size [simp]: "root_black (s\<lparr>size_s := n\<rparr>) = root_black s"
  by (simp add: root_black_def split: option.splits)

lemma deleteNode_finish_ok:
  assumes cx: "ctx (root s1) (heap s1) cx (rootp tx)" and tx: "tr (heap s1) (cpar cx) tx"
    and d: "distinct (inord (plug cx tx))"
    and rbx: "root_black s1 \<or> (cx = [] \<and> oc = black \<and> tx \<noteq> Lf)"
  shows "\<exists>res. deleteNode_finish s1 oc (rootp tx) = Some res \<and>
           (\<forall>s'. res = Inr s' \<longrightarrow> del_post s1 s' (inord (plug cx tx)))"
proof -
  let ?s2 = "s1\<lparr>size_s := size_s s1 - 1\<rparr>"
  from cx tx have whole: "root ?s2 = rootp (plug cx tx)" "tr (heap ?s2) None (plug cx tx)"
    using focus_plug [of "root s1" cx tx "heap s1"] by simp_all
  have rb2: "root_black ?s2 = root_black s1" by simp
  show ?thesis
  proof (cases "oc = black \<and> rootp tx \<noteq> None")
    case True
    then obtain x where x: "rootp tx = Some x" by (cases tx) auto
    have inv: "fix_inv ?s2 cx tx x"
      using cx tx d rbx x rb2 by (auto simp: fix_inv_def)
    from deleteFixup_ok [OF inv] obtain res where
      r: "deleteFixup ?s2 (Some x) = Some res"
      and p: "\<forall>s'. res = Inr s' \<longrightarrow> fix_post ?s2 s' (inord (plug cx tx))" by blast
    have "deleteNode_finish s1 oc (rootp tx) = Some res"
      using True x r by (simp add: deleteNode_finish_def Let_def)
    moreover have "\<forall>s'. res = Inr s' \<longrightarrow> del_post s1 s' (inord (plug cx tx))"
      using p by (auto simp: fix_post_def del_post_def same_data_def)
    ultimately show ?thesis by blast
  next
    case False
    then have f: "deleteNode_finish s1 oc (rootp tx) = Some (Inr ?s2)"
      by (auto simp: deleteNode_finish_def Let_def)
    from False rbx have "root_black s1" by auto
    with whole rb2 have "del_post s1 ?s2 (inord (plug cx tx))"
      unfolding del_post_def by auto
    with f show ?thesis by simp
  qed
qed

lemma del_post_trans:
  "size_s s1 = size_s s \<Longrightarrow> nxt s1 = nxt s \<Longrightarrow> \<forall>a. val (heap s1 a) = val (heap s a) \<Longrightarrow>
   del_post s1 s' xs \<Longrightarrow> del_post s s' xs"
  by (simp add: del_post_def)

lemma deleteNode_one_child:
  assumes c: "ctx (root s) (heap s) c (Some z)" and t: "tr (heap s) (cpar c) (Nd l z r)"
    and d: "distinct (inord (plug c (Nd l z r)))" and rb: "root_black s"
    and one: "l = Lf \<or> r = Lf"
  shows "\<exists>res. deleteNode s z = Some res \<and>
           (\<forall>s'. res = Inr s' \<longrightarrow> del_post s s' (cleft c @ inord l @ inord r @ cright c))"
proof -
  define V where "V = (if l = Lf then r else l)"
  let ?s1 = "rbTransplant s z (rootp V)"
  from t have pz: "parent (heap s z) = cpar c" and lz: "left (heap s z) = rootp l"
    and rz: "right (heap s z) = rootp r" and tl: "tr (heap s) (Some z) l" and tr: "tr (heap s) (Some z) r"
    by simp_all
  have tv: "tr (heap s) (Some z) V" using tl tr by (simp add: V_def)
  have dv: "distinct (cleft c @ z # inord V @ cright c)"
    using d one by (auto simp: inord_plug V_def)
  have io: "inord (plug c V) = cleft c @ inord l @ inord r @ cright c"
    using one by (auto simp: inord_plug V_def)
  have dn: "deleteNode s z = deleteNode_finish ?s1 (color (heap s z)) (rootp V)"
    using lz rz one by (auto simp: deleteNode_def V_def)
  from rbTransplant_focus [OF c pz tv dv] have c1: "ctx (root ?s1) (heap ?s1) c (rootp V)"
    and t1: "tr (heap ?s1) (cpar c) V" by simp_all
  have d1: "distinct (inord (plug c V))" using dv by (simp add: inord_plug)
  have rbx: "root_black ?s1 \<or> (c = [] \<and> color (heap s z) = black \<and> V \<noteq> Lf)"
  proof (cases c)
    case Nil
    with c rb have "color (heap s z) = black" by (simp add: root_black_def)
    moreover have "V = Lf \<Longrightarrow> root_black ?s1" using c1 Nil by (simp add: root_black_def)
    ultimately show ?thesis using Nil by auto
  next
    case (Cons f c')
    then have ne: "c \<noteq> []" by simp
    have "root_black ?s1"
      by (rule root_black_keep [OF ne c c1 rb]) simp
    then show ?thesis ..
  qed
  from deleteNode_finish_ok [OF c1 t1 d1 rbx] obtain res where
    r: "deleteNode_finish ?s1 (color (heap s z)) (rootp V) = Some res"
    and p: "\<forall>s'. res = Inr s' \<longrightarrow> del_post ?s1 s' (inord (plug c V))" by blast
  have "\<forall>s'. res = Inr s' \<longrightarrow> del_post s s' (cleft c @ inord l @ inord r @ cright c)"
    using p io by (auto intro: del_post_trans [of ?s1 s])
  with dn r show ?thesis by simp
qed

lemma cleft_append [simp]: "cleft (c1 @ c2) = cleft c2 @ cleft c1"
  by (induction c1 rule: cleft.induct) auto

lemma cright_append [simp]: "cright (c1 @ c2) = cright c1 @ cright c2"
  by (induction c1 rule: cleft.induct) auto

lemma minNode_spine:
  assumes "tr (heap s) par t" "rootp t = Some a"
  shows "\<exists>cl y ry. minNode s a = Some y \<and> t = plug cl (Nd Lf y ry) \<and> cleft cl = []"
  using assms
proof (induction t arbitrary: par a)
  case Lf
  then show ?case by simp
next
  case (Nd l b r)
  then have ab: "a = b" and pl: "left (heap s b) = rootp l" and tl: "tr (heap s) (Some b) l" by simp_all
  show ?case
  proof (cases l)
    case Lf
    with pl ab have "minNode s a = Some b" by (subst minNode.simps) simp
    moreover have "Nd l b r = plug [] (Nd Lf b r)" using Lf by simp
    ultimately show ?thesis by (metis cleft.simps(1))
  next
    case (Nd ll c lr)
    with Nd.IH(1) [OF tl, of c] obtain cl y ry where
      m: "minNode s c = Some y" and l: "l = plug cl (Nd Lf y ry)" and e: "cleft cl = []" by auto
    from m pl ab Nd have "minNode s a = Some y" by (subst minNode.simps) simp
    moreover have "Nd l b r = plug (cl @ [FL b r]) (Nd Lf y ry)" using l by (simp add: plug_append)
    moreover have "cleft (cl @ [FL b r]) = []" using e by simp
    ultimately show ?thesis by blast
  qed
qed

lemma deleteNode_detach_near:
  assumes c: "ctx (root s) (heap s) c (Some z)" and t: "tr (heap s) (cpar c) (Nd l z (Nd Lf y ry))"
    and d: "distinct (inord (plug c (Nd l z (Nd Lf y ry))))"
  shows "\<exists>s3. deleteNode_detach s z y = Inr s3 \<and> ctx (root s3) (heap s3) c (Some z) \<and>
           parent (heap s3 z) = cpar c \<and> left (heap s3 z) = rootp l \<and> tr (heap s3) (Some z) l \<and>
           tr (heap s3) (Some z) (Nd Lf y ry) \<and> same_cv s s3"
proof -
  from d have dd: "distinct (cleft c @ (inord l @ z # y # inord ry) @ cright c)"
    by (simp add: inord_plug)
  let ?s3 = "case rootp ry of None \<Rightarrow> s | Some xa \<Rightarrow> set_parent xa (Some y) s"
  have e: "deleteNode_detach s z y = Inr ?s3" using t by (simp add: deleteNode_detach_def)
  have same: "\<And>a. left (heap ?s3 a) = left (heap s a) \<and> right (heap ?s3 a) = right (heap s a) \<and>
      parent (heap ?s3 a) = parent (heap s a)"
    using t by (cases ry) auto
  have rt: "root ?s3 = root s" by (cases ry) auto
  have c3: "ctx (root ?s3) (heap ?s3) c (Some z)"
    unfolding rt by (rule ctx_cong [OF c]) (simp add: same)
  have t3: "tr (heap ?s3) (cpar c) (Nd l z (Nd Lf y ry))"
    by (rule tr_cong [OF t]) (simp add: same)
  have cv: "same_cv s ?s3" by (cases ry) (auto simp: same_cv_def)
  from e c3 t3 cv show ?thesis by auto
qed

lemma spine_cons:
  assumes "cleft cl = []" "cl \<noteq> []"
  shows "\<exists>g R cl'. cl = FL g R # cl' \<and> cleft cl' = []"
  using assms by (cases cl rule: cleft.cases) auto

lemma deleteNode_detach_far:
  assumes c: "ctx (root s) (heap s) c (Some z)"
    and t: "tr (heap s) (cpar c) (Nd l z (plug cl (Nd Lf y ry)))"
    and d: "distinct (inord (plug c (Nd l z (plug cl (Nd Lf y ry)))))"
    and sp: "cleft cl = []" and ne: "cl \<noteq> []"
  shows "\<exists>s3. deleteNode_detach s z y = Inr s3 \<and> ctx (root s3) (heap s3) c (Some z) \<and>
           parent (heap s3 z) = cpar c \<and> left (heap s3 z) = rootp l \<and> tr (heap s3) (Some z) l \<and>
           tr (heap s3) (parent (heap s3 y)) (Nd Lf y (plug cl ry)) \<and> same_cv s s3"
proof -
  from spine_cons [OF sp ne] obtain g R cl' where cl: "cl = FL g R # cl'" and sp': "cleft cl' = []"
    by blast
  let ?cy = "cl @ FR l z # c"
  from d sp have dd: "distinct (cleft c @ (inord l @ z # y # inord ry @ cright cl) @ cright c)"
    by (simp add: inord_plug)
  from c t have whole: "root s = rootp (plug c (Nd l z (plug cl (Nd Lf y ry))))"
    "tr (heap s) None (plug c (Nd l z (plug cl (Nd Lf y ry))))"
    using focus_plug [of "root s" c "Nd l z (plug cl (Nd Lf y ry))" "heap s"] by simp_all
  have pe: "plug c (Nd l z (plug cl (Nd Lf y ry))) = plug ?cy (Nd Lf y ry)"
    by (simp add: plug_append)
  from whole have fy: "ctx (root s) (heap s) ?cy (Some y)" "tr (heap s) (cpar ?cy) (Nd Lf y ry)"
    unfolding pe using focus_plug [of "root s" ?cy "Nd Lf y ry" "heap s"] by simp_all
  have cpy: "cpar ?cy = Some g" using cl by simp
  from fy(2) cpy have py: "parent (heap s y) = Some g" and ly: "left (heap s y) = None"
    and ryf: "right (heap s y) = rootp ry" and tyr: "tr (heap s) (Some y) ry" by simp_all
  from dd cl have gz: "g \<noteq> z" by auto
  let ?s1 = "rbTransplant s y (rootp ry)"
  have dy: "distinct (cleft ?cy @ y # inord ry @ cright ?cy)"
    using dd sp by simp
  from rbTransplant_focus [OF fy(1) _ tyr dy] py cpy
  have f1: "ctx (root ?s1) (heap ?s1) ?cy (rootp ry)" "tr (heap ?s1) (cpar ?cy) ry" by simp_all
  then have whole1: "root ?s1 = rootp (plug ?cy ry)" "tr (heap ?s1) None (plug ?cy ry)"
    using focus_plug [of "root ?s1" ?cy ry "heap ?s1"] by simp_all
  have pe1: "plug ?cy ry = plug c (Nd l z (plug cl ry))" by (simp add: plug_append)
  from whole1 have fz: "ctx (root ?s1) (heap ?s1) c (Some z)" "tr (heap ?s1) (cpar c) (Nd l z (plug cl ry))"
    unfolding pe1 using focus_plug [of "root ?s1" c "Nd l z (plug cl ry)" "heap ?s1"] by simp_all
  obtain rl rr rrr where R': "plug cl ry = Nd rl rr rrr"
    using cl by (cases "plug cl ry") (auto simp: plug_append dest: arg_cong [where f = inord] simp: inord_plug)
  have io: "inord (plug cl ry) = inord ry @ cright cl" using sp by (simp add: inord_plug)
  from R' io have rrin: "rr \<in> set (inord ry @ cright cl)" by (metis inord.simps(2) in_set_conv_decomp)
  with dd have rrn: "rr \<noteq> y" "rr \<noteq> z" "rr \<notin> set (inord l)" "rr \<notin> set (cleft c)" "rr \<notin> set (cright c)"
    by auto
  from dd have yn: "y \<noteq> z" "y \<notin> set (inord l)" "y \<notin> set (cleft c)" "y \<notin> set (cright c)"
    "y \<notin> set (inord ry)" "y \<notin> set (cright cl)" by auto
  from fz(2) R' have rz1: "right (heap ?s1 z) = Some rr" by simp
  let ?s3 = "set_parent rr (Some y) (set_right y (Some rr) ?s1)"
  have y1: "parent (heap s y) \<noteq> Some y" using py dd cl by auto
  have e: "deleteNode_detach s z y = Inr ?s3"
    using py gz ryf rz1 by (simp add: deleteNode_detach_def Let_def)
  have c3: "ctx (root ?s3) (heap ?s3) c (Some z)" using fz(1) rrn yn by simp
  have z3: "parent (heap ?s3 z) = cpar c" "left (heap ?s3 z) = rootp l"
    using fz(2) rrn yn by simp_all
  have l3: "tr (heap ?s3) (Some z) l" using fz(2) rrn yn by simp
  have tR: "tr (heap ?s1) (Some z) (plug cl ry)" using fz(2) by simp
  have dR: "distinct (inord (plug cl ry))" using dd io by auto
  have tR3: "tr (heap ?s3) (Some y) (plug cl ry)"
  proof (rule tr_reparent [OF tR dR])
    show "\<forall>a\<in>set (inord (plug cl ry)). left (heap ?s3 a) = left (heap ?s1 a) \<and>
        right (heap ?s3 a) = right (heap ?s1 a) \<and>
        (rootp (plug cl ry) \<noteq> Some a \<longrightarrow> parent (heap ?s3 a) = parent (heap ?s1 a))"
      using io yn R' by auto
    show "\<forall>a. rootp (plug cl ry) = Some a \<longrightarrow> parent (heap ?s3 a) = Some y"
      using R' by simp
  qed
  have ly3: "left (heap ?s3 y) = None"
    using ly y1 rrn by (simp add: rbTransplant_left)
  have t3: "tr (heap ?s3) (parent (heap ?s3 y)) (Nd Lf y (plug cl ry))"
    using tR3 ly3 R' rrn by simp
  have cv: "same_cv s ?s3" by (simp add: same_cv_def)
  from e c3 z3 l3 t3 cv show ?thesis by blast
qed

lemma deleteNode_replace_ok:
  assumes c: "ctx (root s) (heap s) c (Some z)" and pz: "parent (heap s z) = cpar c"
    and lz: "left (heap s z) = rootp l" and tl: "tr (heap s) (Some z) l"
    and ty: "tr (heap s) q (Nd Lf y R)" and ln: "l = Nd ll la lr"
    and d: "distinct (cleft c @ (inord l @ z # y # inord R) @ cright c)"
  shows "\<exists>s7. deleteNode_replace s z y = Inr s7 \<and> ctx (root s7) (heap s7) c (Some y) \<and>
           tr (heap s7) (cpar c) (Nd l y R) \<and> size_s s7 = size_s s \<and> nxt s7 = nxt s \<and>
           (\<forall>a. val (heap s7 a) = val (heap s a)) \<and>
           color (heap s7 y) = color (heap s z) \<and>
           (\<forall>a. a \<noteq> y \<longrightarrow> color (heap s7 a) = color (heap s a))"
proof -
  let ?s4 = "rbTransplant s z (Some y)"
  from d have dz: "distinct (cleft c @ z # inord (Nd Lf y R) @ cright c)" by auto
  from rbTransplant_focus [OF c pz ty, of ] dz
  have c4: "ctx (root ?s4) (heap ?s4) c (Some y)" and t4: "tr (heap ?s4) (cpar c) (Nd Lf y R)"
    using rbTransplant_focus [OF c pz ty dz] by simp_all
  from d cpar_in [of c z] pz have nz: "parent (heap s z) \<noteq> Some z" by auto
  then have lz4: "left (heap ?s4 z) = Some la" using lz ln by (simp add: rbTransplant_left)
  from d ln have dl: "la \<noteq> y" "la \<noteq> z" "la \<notin> set (cleft c)" "la \<notin> set (cright c)" "la \<notin> set (inord R)"
    "y \<notin> set (cleft c)" "y \<notin> set (cright c)" "y \<notin> set (inord R)" "y \<noteq> z" "y \<notin> set (inord l)"
    by auto
  let ?s6 = "set_parent la (Some y) (set_left y (Some la) ?s4)"
  let ?s7 = "set_color y (color (heap ?s6 z)) ?s6"
  have e: "deleteNode_replace s z y = Inr ?s7"
    using lz4 by (simp add: deleteNode_replace_def Let_def)
  have c7: "ctx (root ?s7) (heap ?s7) c (Some y)" using c4 dl by simp
  have tl4: "tr (heap ?s4) (Some z) l"
    by (rule rbTransplant_tr_other [OF pz _ _ tl]) (use d dl in auto)
  have dil: "distinct (inord l)" using d by simp
  have tl7: "tr (heap ?s7) (Some y) l"
  proof (rule tr_reparent [OF tl4 dil])
    show "\<forall>a\<in>set (inord l). left (heap ?s7 a) = left (heap ?s4 a) \<and>
        right (heap ?s7 a) = right (heap ?s4 a) \<and>
        (rootp l \<noteq> Some a \<longrightarrow> parent (heap ?s7 a) = parent (heap ?s4 a))"
      using dl ln by auto
    show "\<forall>a. rootp l = Some a \<longrightarrow> parent (heap ?s7 a) = Some y" using ln by simp
  qed
  have t7: "tr (heap ?s7) (cpar c) (Nd l y R)"
    using t4 tl7 dl ln by simp
  have col: "color (heap ?s7 y) = color (heap s z)" using dl by simp
  from e c7 t7 col show ?thesis by auto
qed

lemma tr_plug_sub: "tr h p (plug c t) \<Longrightarrow> \<exists>p'. tr h p' t"
  by (induction c t rule: plug.induct) auto

lemma deleteNode_two_children:
  assumes c: "ctx (root s) (heap s) c (Some z)" and t: "tr (heap s) (cpar c) (Nd l z r)"
    and d: "distinct (inord (plug c (Nd l z r)))" and rb: "root_black s"
    and two: "l \<noteq> Lf" "r \<noteq> Lf"
  shows "\<exists>res. deleteNode s z = Some res \<and>
           (\<forall>s'. res = Inr s' \<longrightarrow> del_post s s' (cleft c @ inord l @ inord r @ cright c))"
proof -
  from two obtain ll la lr where ln: "l = Nd ll la lr" by (cases l) auto
  from two obtain zr where zr: "rootp r = Some zr" by (cases r) auto
  from t have pz: "parent (heap s z) = cpar c" and lz: "left (heap s z) = rootp l"
    and rz: "right (heap s z) = rootp r" and tl: "tr (heap s) (Some z) l" and tr: "tr (heap s) (Some z) r"
    by simp_all
  from minNode_spine [OF tr zr] obtain cl y ry where
    m: "minNode s zr = Some y" and r: "r = plug cl (Nd Lf y ry)" and sp: "cleft cl = []" by blast
  from d r sp have dd: "distinct (cleft c @ (inord l @ z # y # inord ry @ cright cl) @ cright c)"
    by (simp add: inord_plug)
  have ior: "inord r = y # inord ry @ cright cl" using r sp by (simp add: inord_plug)
  \<comment> \<open>the successor leaves its place\<close>
  have "\<exists>s3 q. deleteNode_detach s z y = Inr s3 \<and> ctx (root s3) (heap s3) c (Some z) \<and>
           parent (heap s3 z) = cpar c \<and> left (heap s3 z) = rootp l \<and> tr (heap s3) (Some z) l \<and>
           tr (heap s3) q (Nd Lf y (plug cl ry)) \<and> same_cv s s3"
  proof (cases "cl = []")
    case True
    with deleteNode_detach_near [OF c, of l y ry] t d r show ?thesis by auto
  next
    case False
    with deleteNode_detach_far [OF c t [unfolded r] d [unfolded r] sp False] show ?thesis by blast
  qed
  then obtain s3 q where dt: "deleteNode_detach s z y = Inr s3"
    and c3: "ctx (root s3) (heap s3) c (Some z)" and pz3: "parent (heap s3 z) = cpar c"
    and lz3: "left (heap s3 z) = rootp l" and tl3: "tr (heap s3) (Some z) l"
    and ty3: "tr (heap s3) q (Nd Lf y (plug cl ry))" and cv3: "same_cv s s3" by blast
  have d3: "distinct (cleft c @ (inord l @ z # y # inord (plug cl ry)) @ cright c)"
    using dd sp by (simp add: inord_plug)
  from deleteNode_replace_ok [OF c3 pz3 lz3 tl3 ty3 ln d3] obtain s7 where
    rp: "deleteNode_replace s3 z y = Inr s7" and c7: "ctx (root s7) (heap s7) c (Some y)"
    and t7: "tr (heap s7) (cpar c) (Nd l y (plug cl ry))"
    and sz7: "size_s s7 = size_s s3" "nxt s7 = nxt s3" and v7: "\<forall>a. val (heap s7 a) = val (heap s3 a)"
    and cy7: "color (heap s7 y) = color (heap s3 z)"
    and co7: "\<forall>a. a \<noteq> y \<longrightarrow> color (heap s7 a) = color (heap s3 a)" by blast
  \<comment> \<open>the place of \<open>x\<close>\<close>
  let ?cx = "cl @ FR l y # c"
  from c7 t7 have whole: "root s7 = rootp (plug c (Nd l y (plug cl ry)))"
    "tr (heap s7) None (plug c (Nd l y (plug cl ry)))"
    using focus_plug [of "root s7" c "Nd l y (plug cl ry)" "heap s7"] by simp_all
  have pe: "plug c (Nd l y (plug cl ry)) = plug ?cx ry" by (simp add: plug_append)
  from whole have fx: "ctx (root s7) (heap s7) ?cx (rootp ry)" "tr (heap s7) (cpar ?cx) ry"
    unfolding pe using focus_plug [of "root s7" ?cx ry "heap s7"] by simp_all
  have iox: "inord (plug ?cx ry) = cleft c @ inord l @ inord r @ cright c"
    using sp ior by (simp add: inord_plug)
  have dx: "distinct (inord (plug ?cx ry))" unfolding iox using dd ior by auto
  have rb7: "root_black s7"
  proof (cases c)
    case Nil
    with c rb have "color (heap s z) = black" by (simp add: root_black_def)
    with cy7 cv3 have "color (heap s7 y) = black" by (simp add: same_cv_def)
    with c7 Nil show ?thesis by (simp add: root_black_def)
  next
    case (Cons f c')
    then have ne: "c \<noteq> []" by simp
    show ?thesis
      by (rule root_black_keep [OF ne c c7 rb]) (use co7 cv3 dd in \<open>auto simp: same_cv_def\<close>)
  qed
  from deleteNode_finish_ok [OF fx dx, of "color (heap s y)"] rb7 obtain res where
    f: "deleteNode_finish s7 (color (heap s y)) (rootp ry) = Some res"
    and p: "\<forall>s'. res = Inr s' \<longrightarrow> del_post s7 s' (inord (plug ?cx ry))" by blast
  have ry: "right (heap s y) = rootp ry"
  proof -
    from tr r have "tr (heap s) (Some z) (plug cl (Nd Lf y ry))" by simp
    from tr_plug_sub [OF this] show ?thesis by auto
  qed
  have dn: "deleteNode s z = Some res"
    using lz rz ln zr m dt rp f ry by (simp add: deleteNode_def Let_def)
  have "\<forall>s'. res = Inr s' \<longrightarrow> del_post s s' (cleft c @ inord l @ inord r @ cright c)"
    using p iox sz7 v7 cv3 by (auto simp: del_post_def same_cv_def)
  with dn show ?thesis by blast
qed

lemma deleteNode_ok:
  assumes c: "ctx (root s) (heap s) c (Some z)" and t: "tr (heap s) (cpar c) (Nd l z r)"
    and d: "distinct (inord (plug c (Nd l z r)))" and rb: "root_black s"
  shows "\<exists>res. deleteNode s z = Some res \<and>
           (\<forall>s'. res = Inr s' \<longrightarrow> del_post s s' (cleft c @ inord l @ inord r @ cright c))"
proof (cases "l = Lf \<or> r = Lf")
  case True
  from deleteNode_one_child [OF c t d rb True] show ?thesis .
next
  case False
  then have "l \<noteq> Lf" "r \<noteq> Lf" by simp_all
  from deleteNode_two_children [OF c t d rb this] show ?thesis .
qed

section \<open>\<^verbatim>\<open>Remove\<close>\<close>

lemma remove_loop_ok:
  fixes s :: "'a::linorder Set"
  assumes "ctx rt (heap s) c (rootp t)" "tr (heap s) (cpar c) t"
    and "sorted_wrt (<) (vals s (inord t))"
  shows "if x \<in> set (vals s (inord t))
         then \<exists>c' l z r. plug c' (Nd l z r) = plug c t \<and> ctx rt (heap s) c' (Some z) \<and>
                tr (heap s) (cpar c') (Nd l z r) \<and> val (heap s z) = x \<and>
                remove_loop s x (rootp t) = deleteNode s z
         else remove_loop s x (rootp t) = Some (Inr s)"
  using assms
proof (induction t arbitrary: c)
  case Lf
  then show ?case by (subst remove_loop.simps) simp
next
  case (Nd l a r)
  let ?v = "val (heap s a)"
  from Nd.prems(3) have lv: "\<forall>y\<in>set (vals s (inord l)). y < ?v" and rv: "\<forall>y\<in>set (vals s (inord r)). ?v < y"
    and sl: "sorted_wrt (<) (vals s (inord l))" and sr: "sorted_wrt (<) (vals s (inord r))"
    by (auto simp: sorted_wrt_append)
  consider (lt) "x < ?v" | (gt) "?v < x" | (eq) "x = ?v" by (metis less_linear)
  then show ?case
  proof cases
    case lt
    have 1: "ctx rt (heap s) (FL a r # c) (rootp l)" using Nd.prems(1,2) by simp
    have 2: "tr (heap s) (cpar (FL a r # c)) l" using Nd.prems(2) by simp
    have mem: "x \<in> set (vals s (inord (Nd l a r))) \<longleftrightarrow> x \<in> set (vals s (inord l))"
      using lt rv by auto
    have step: "remove_loop s x (rootp (Nd l a r)) = remove_loop s x (rootp l)"
      using lt Nd.prems(2) by (subst remove_loop.simps) simp
    from Nd.IH(1) [OF 1 2 sl] show ?thesis
      unfolding mem step by auto
  next
    case gt
    have 1: "ctx rt (heap s) (FR l a # c) (rootp r)" using Nd.prems(1,2) by simp
    have 2: "tr (heap s) (cpar (FR l a # c)) r" using Nd.prems(2) by simp
    have mem: "x \<in> set (vals s (inord (Nd l a r))) \<longleftrightarrow> x \<in> set (vals s (inord r))"
      using gt lv by auto
    have step: "remove_loop s x (rootp (Nd l a r)) = remove_loop s x (rootp r)"
      using gt Nd.prems(2) by (subst remove_loop.simps) (simp add: less_not_sym)
    from Nd.IH(2) [OF 1 2 sr] show ?thesis
      unfolding mem step by auto
  next
    case eq
    have "remove_loop s x (rootp (Nd l a r)) = deleteNode s a"
      using eq by (subst remove_loop.simps) simp
    with Nd.prems(1,2) eq show ?thesis by auto
  qed
qed

lemma Remove_ok:
  fixes s :: "'a::linorder Set"
  assumes wf: "wf_set s t"
  shows "\<exists>res. Remove s x = Some res \<and>
           (x \<notin> set (vals s (inord t)) \<longrightarrow> res = Inr s) \<and>
           (\<forall>s'. res = Inr s' \<longrightarrow>
              (\<exists>t'. wf_set s' t' \<and> set (vals s' (inord t')) = set (vals s (inord t)) - {x}))"
proof -
  from wf have r: "root s = rootp t" and t: "tr (heap s) None t" and d: "distinct (inord t)"
    and fr: "\<forall>a\<in>set (inord t). a < nxt s" and so: "sorted_wrt (<) (vals s (inord t))"
    and sz: "size_s s = int (length (inord t))" and rb: "root_black s"
    by (simp_all add: wf_set_def)
  have l: "if x \<in> set (vals s (inord t))
         then \<exists>c' l z r. plug c' (Nd l z r) = plug [] t \<and> ctx (root s) (heap s) c' (Some z) \<and>
                tr (heap s) (cpar c') (Nd l z r) \<and> val (heap s z) = x \<and>
                remove_loop s x (rootp t) = deleteNode s z
         else remove_loop s x (rootp t) = Some (Inr s)"
    by (rule remove_loop_ok) (use r t so in simp_all)
  show ?thesis
  proof (cases "x \<in> set (vals s (inord t))")
    case False
    with l r have "Remove s x = Some (Inr s)" by (simp add: Remove_def)
    with wf False show ?thesis by auto
  next
    case True
    with l r obtain c' l' z r' where pl: "plug c' (Nd l' z r') = t"
      and c: "ctx (root s) (heap s) c' (Some z)" and tz: "tr (heap s) (cpar c') (Nd l' z r')"
      and vz: "val (heap s z) = x" and rm: "Remove s x = deleteNode s z"
      by (auto simp: Remove_def)
    from pl have io: "inord t = cleft c' @ inord l' @ z # inord r' @ cright c'"
      using inord_plug [of c' "Nd l' z r'"] by simp
    let ?xs = "cleft c' @ inord l' @ inord r' @ cright c'"
    from d pl have dz: "distinct (inord (plug c' (Nd l' z r')))" by simp
    from deleteNode_ok [OF c tz dz rb] obtain res where
      dn: "deleteNode s z = Some res" and p: "\<forall>s'. res = Inr s' \<longrightarrow> del_post s s' ?xs" by blast
    have "\<exists>t'. wf_set s' t' \<and> set (vals s' (inord t')) = set (vals s (inord t)) - {x}"
      if "res = Inr s'" for s'
    proof -
      from p that have "del_post s s' ?xs" by simp
      then obtain t' where t': "root s' = rootp t'" "tr (heap s') None t'" "inord t' = ?xs"
        and rb': "root_black s'" and sz': "size_s s' = size_s s - 1" and nx: "nxt s' = nxt s"
        and v: "\<forall>a. val (heap s' a) = val (heap s a)" by (auto simp: del_post_def)
      have vv: "\<And>ys. vals s' ys = vals s ys" using v by (simp add: vals_def)
      from so have so': "sorted_wrt (<) (vals s ?xs)"
        unfolding io by (auto simp: sorted_wrt_append)
      from so vz have nx1: "x \<notin> set (vals s ?xs)"
        unfolding io by (auto simp: sorted_wrt_append)
      have "wf_set s' t'"
        unfolding wf_set_def
        using t' rb' sz' nx d fr sz so' vv io by auto
      moreover have "set (vals s' (inord t')) = set (vals s (inord t)) - {x}"
        using t'(3) vv io vz nx1 by auto
      ultimately show ?thesis by blast
    qed
    with rm dn True show ?thesis by auto
  qed
qed

section \<open>Sequences of calls\<close>

text \<open>
  Every set reached from \<^verbatim>\<open>New\<close> by calls that all returned satisfies the invariant, and
  holds the values inserted and not removed since.
\<close>

lemma wf_New: "wf_set (New z) Lf"
  by (simp add: wf_set_def New_def root_black_def)

lemma exec_wf:
  fixes s :: "'a::linorder Set"
  assumes "wf_set s t" "exec z s o1 = Some (Inr s')"
  shows "\<exists>t'. wf_set s' t' \<and> set (vals s' (inord t')) = apply_ops (set (vals s (inord t))) [o1]"
proof (cases o1)
  case (Ins x)
  with Insert_ok [OF assms(1), of x] assms(2) show ?thesis by auto
next
  case (Rem x)
  with Remove_ok [OF assms(1), of x] assms(2) show ?thesis by auto
next
  case (Has x)
  with assms show ?thesis by (auto split: option.splits)
next
  case OpMin
  with assms show ?thesis by (auto split: option.splits)
next
  case OpMax
  with assms show ?thesis by (auto split: option.splits)
next
  case OpAll
  with assms show ?thesis by (auto split: option.splits sum.splits)
qed

lemma apply_ops_Cons: "apply_ops S (o1 # os) = apply_ops (apply_ops S [o1]) os"
  by (cases o1) simp_all

lemma run_wf:
  fixes s :: "'a::linorder Set"
  assumes "wf_set s t" "run z s ops = Some (Inr s')"
  shows "\<exists>t'. wf_set s' t' \<and> set (vals s' (inord t')) = apply_ops (set (vals s (inord t))) ops"
  using assms
proof (induction ops arbitrary: s t)
  case Nil
  then show ?case by auto
next
  case (Cons o1 os)
  from Cons.prems(2) obtain s1 where e: "exec z s o1 = Some (Inr s1)" and r: "run z s1 os = Some (Inr s')"
    by (auto split: option.splits sum.splits)
  from exec_wf [OF Cons.prems(1) e] obtain t1 where w1: "wf_set s1 t1"
    and v1: "set (vals s1 (inord t1)) = apply_ops (set (vals s (inord t))) [o1]" by blast
  from Cons.IH [OF w1 r] v1 show ?case by (subst apply_ops_Cons) auto
qed

lemma reachable_wf:
  fixes s :: "'a::linorder Set"
  assumes "run z (New z) ops = Some (Inr s)"
  shows "\<exists>t. wf_set s t \<and> set (vals s (inord t)) = apply_ops {} ops"
  using run_wf [OF wf_New assms] by simp

lemma wf_distinct_vals: "wf_set s t \<Longrightarrow> distinct (vals s (inord t))"
  using strict_sorted_iff [of "vals s (inord t)"] by (simp add: wf_set_def)

lemma wf_Len:
  fixes s :: "'a::linorder Set"
  assumes "wf_set s t"
  shows "Len s = int (card (set (vals s (inord t))))"
proof -
  from distinct_card [OF wf_distinct_vals [OF assms]]
  have "card (set (vals s (inord t))) = length (inord t)" by (simp add: vals_def)
  with assms show ?thesis by (simp add: wf_set_def Len_def)
qed

lemma sorted_hd_Min:
  fixes xs :: "'a::linorder list"
  assumes "sorted_wrt (<) xs" "xs \<noteq> []"
  shows "hd xs = Min (set xs)"
proof -
  from assms obtain y ys where xs: "xs = y # ys" by (cases xs) auto
  with assms(1) have "\<forall>v\<in>set ys. y < v" by simp
  then have "Min (set (y # ys)) = y" by (intro Min_eqI) (auto simp: less_imp_le)
  with xs show ?thesis by simp
qed

lemma sorted_last_Max:
  fixes xs :: "'a::linorder list"
  assumes "sorted_wrt (<) xs" "xs \<noteq> []"
  shows "last xs = Max (set xs)"
proof -
  from assms(2) obtain ys y where xs: "xs = ys @ [y]" by (cases xs rule: rev_cases) auto
  with assms(1) have "\<forall>v\<in>set ys. v < y" by (simp add: sorted_wrt_append)
  then have "Max (set (ys @ [y])) = y" by (intro Max_eqI) (auto simp: less_imp_le)
  with xs show ?thesis by simp
qed

section \<open>Evaluation of the program on concrete sets\<close>

lemmas program_defs =
  New_def Insert_def Remove_def Contains_def insert_loop.simps remove_loop.simps
  contains_loop.simps newNode_def insertFixup.simps insertFixup_body_def
  recolor_rotate_right_def recolor_rotate_left_def leftRotate_def
  rightRotate_def rbTransplant_def deleteNode_def deleteNode_finish_def deleteNode_detach_def
  deleteNode_replace_def deleteFixup.simps
  deleteFixup_left_def deleteFixup_left_red_def deleteFixup_left_near_def deleteFixup_left_far_def
  deleteFixup_left_black_def deleteFixup_right_def deleteFixup_right_red_def
  deleteFixup_right_near_def deleteFixup_right_far_def deleteFixup_right_black_def minNode.simps maxNode.simps nil_or_black_def
  set_color_def set_left_def set_right_def set_parent_def Let_def

lemma run_set_2_3_4:
  "run 0 (New 0) [Ins 1, Ins 2, Ins 3, Ins 4, Rem 1] = Some (Inr set_2_3_4)"
  by (simp add: program_defs set_2_3_4_def fun_eq_iff)

lemma run_set_1_2_4_6:
  "run 0 (New 0) [Ins 1, Ins 3, Ins 4, Ins 2, Rem 4, Ins 4, Ins 5, Ins 6, Rem 3, Rem 5]
     = Some (Inr set_1_2_4_6)"
  by (simp add: program_defs set_1_2_4_6_def fun_eq_iff)

lemma run_append:
  "run z s (xs @ ys) =
     (case run z s xs of
        None \<Rightarrow> None
      | Some (Inl e) \<Rightarrow> Some (Inl e)
      | Some (Inr s1) \<Rightarrow> run z s1 ys)"
  by (induction xs arbitrary: s) (auto split: option.splits sum.splits)

lemma remove_4_panics: "Remove set_1_2_4_6 4 = Some (Inl NilDeref)"
  by (simp add: program_defs set_1_2_4_6_def)

lemma All_set_2_3_4: "All_s set_2_3_4 = Some (Inr [2, 3, 4])"
  by (simp add: All_s_def all_loop.simps set_2_3_4_def)

lemma Contains_set_2_3_4:
  "Contains set_2_3_4 5 = Some False" "Contains set_2_3_4 3 = Some True"
  "Contains set_2_3_4 4 = Some True"
  by (simp_all add: Contains_def contains_loop.simps set_2_3_4_def)

lemma Len_set_2_3_4: "Len set_2_3_4 = 3"
  by (simp add: Len_def set_2_3_4_def)

lemma Contains_set_1_2_4_6: "Contains set_1_2_4_6 4 = Some True"
  by (simp add: Contains_def contains_loop.simps set_1_2_4_6_def)

lemma All_New: "All_s (New z) = Some (Inr [])"
  by (simp add: All_s_def all_loop.simps New_def)

lemma Remove_set_2_3_4: "\<exists>s'. Remove set_2_3_4 4 = Some (Inr s')"
  by (simp add: program_defs set_2_3_4_def)

lemma run_Nil_New: "run z (New z) [] = Some (Inr (New z))"
  by simp

section \<open>The defect of \<^verbatim>\<open>deleteNode\<close>\<close>

text \<open>
  \<^verbatim>\<open>deleteNode\<close> calls \<^verbatim>\<open>deleteFixup\<close> only when \<^verbatim>\<open>x != nil\<close>. When a black node
  without children leaves the tree, \<^verbatim>\<open>x\<close> is \<^verbatim>\<open>nil\<close>, no fix-up runs, and the paths
  through the place of that node have lost a black node. In a tree that is not balanced a
  black node other than the root can have no sibling, and \<^verbatim>\<open>deleteFixup\<close>, which reads
  the colour of the sibling without a test, panics there.
\<close>

text \<open>
  C1. After \<^verbatim>\<open>Insert(1); Insert(2); Insert(3); Insert(4); Remove(1)\<close> the set is the tree
  with the black root 2, no left child, the black right child 3 and its red right child 4.
  The path to the left child position of the root passes one black node, the three other
  paths pass two: the red-black invariants do not hold.
\<close>

theorem remove_black_leaf_unbalanced:
  "run 0 (New 0) [Ins 1, Ins 2, Ins 3, Ins 4, Rem 1] = Some (Inr set_2_3_4) \<and>
   root set_2_3_4 = rootp (Nd Lf 1 (Nd Lf 2 (Nd Lf 3 Lf))) \<and>
   tr (heap set_2_3_4) None (Nd Lf 1 (Nd Lf 2 (Nd Lf 3 Lf))) \<and>
   black_counts (heap set_2_3_4) (Nd Lf 1 (Nd Lf 2 (Nd Lf 3 Lf))) = [1, 2, 2, 2] \<and>
   \<not> rb_invariants set_2_3_4"
proof -
  let ?t = "Nd Lf 1 (Nd Lf 2 (Nd Lf 3 Lf))"
  have r: "root set_2_3_4 = rootp ?t"
    by (simp add: set_2_3_4_def)
  have t: "tr (heap set_2_3_4) None ?t"
    by (simp add: set_2_3_4_def)
  have b: "black_counts (heap set_2_3_4) ?t = [1, 2, 2, 2]"
    by (simp add: set_2_3_4_def)
  have "\<not> rb_invariants set_2_3_4"
  proof
    assume "rb_invariants set_2_3_4"
    then obtain t' where r': "root set_2_3_4 = rootp t'"
      and t': "tr (heap set_2_3_4) None t'"
      and s: "same_black_count (heap set_2_3_4) t'"
      by (auto simp: rb_invariants_def)
    from r r' have "rootp t' = rootp ?t" by simp
    from tr_fun [OF t' t this] have "t' = ?t" .
    with s b obtain k :: nat where "set [1, 2, 2, 2] = {k}"
      by (auto simp: same_black_count_def)
    then have "(1::nat) = k" "(2::nat) = k" by auto
    then show False by simp
  qed
  with run_set_2_3_4 r t b show ?thesis by simp
qed

text \<open>
  C2. \<^verbatim>\<open>Insert(1); Insert(3); Insert(4); Insert(2); Remove(4); Insert(4); Insert(5);
  Insert(6); Remove(3); Remove(5); Remove(4)\<close> on a new set: the last call panics. The first
  \<^verbatim>\<open>Remove(4)\<close> removed a black node without children and ran no fix-up, and the tree
  is not balanced from then on. In the last call the node 4 has the only child 1, which
  takes its place; \<^verbatim>\<open>deleteFixup\<close> starts at this black node 1, whose parent 6 has no
  right child, and \<^verbatim>\<open>w.color\<close> dereferences \<^verbatim>\<open>nil\<close>.
\<close>

theorem remove_panics:
  "run 0 (New (0::int))
     [Ins 1, Ins 3, Ins 4, Ins 2, Rem 4, Ins 4, Ins 5, Ins 6, Rem 3, Rem 5, Rem 4]
     = Some (Inl NilDeref)"
proof -
  have "run 0 (New (0::int))
          ([Ins 1, Ins 3, Ins 4, Ins 2, Rem 4, Ins 4, Ins 5, Ins 6, Rem 3, Rem 5] @ [Rem 4])
        = Some (Inl NilDeref)"
    by (simp only: run_append run_set_1_2_4_6) (simp add: remove_4_panics)
  then show ?thesis by simp
qed

text \<open>
  C4. The contract of \<^verbatim>\<open>Remove\<close> says that after \<^verbatim>\<open>Remove(x)\<close> the value is absent and
  that the size is one less when it was present. The set reached by \<^verbatim>\<open>Insert(1);
  Insert(3); Insert(4); Insert(2); Remove(4); Insert(4); Insert(5); Insert(6); Remove(3);
  Remove(5)\<close> holds 4, and \<^verbatim>\<open>Remove(4)\<close> on it panics: there is no state after the call.
\<close>

theorem remove_present_panics:
  "run 0 (New 0) [Ins 1, Ins 3, Ins 4, Ins 2, Rem 4, Ins 4, Ins 5, Ins 6, Rem 3, Rem 5]
     = Some (Inr set_1_2_4_6) \<and>
   Contains set_1_2_4_6 4 = Some True \<and>
   Remove set_1_2_4_6 4 = Some (Inl NilDeref)"
  by (simp only: run_set_1_2_4_6 Contains_set_1_2_4_6 remove_4_panics simp_thms)

text \<open>
  What \<^verbatim>\<open>Remove\<close> keeps of its contract on a set reached from \<^verbatim>\<open>New\<close>: the call ends;
  on a value that is absent it returns and changes nothing; and whenever it returns, the
  value is absent, the other values are the same, and the size is one less when the value
  was present.
\<close>

lemma Remove_returns_contract:
  fixes s :: "'a::linorder Set"
  assumes "run z (New z) ops = Some (Inr s)"
  shows "\<exists>res b xs. Remove s x = Some res \<and> Contains s x = Some b \<and> All_s s = Some (Inr xs) \<and>
           (\<not> b \<longrightarrow> res = Inr s) \<and>
           (\<forall>s'. res = Inr s' \<longrightarrow>
              Contains s' x = Some False \<and>
              (\<exists>xs'. All_s s' = Some (Inr xs') \<and> set xs' = set xs - {x}) \<and>
              (b \<longrightarrow> Len s' = Len s - 1))"
proof -
  from reachable_wf [OF assms] obtain t where w: "wf_set s t" by blast
  let ?A = "set (vals s (inord t))"
  from Remove_ok [OF w, of x] obtain res where r: "Remove s x = Some res"
    and a: "x \<notin> ?A \<longrightarrow> res = Inr s"
    and p: "\<forall>s'. res = Inr s' \<longrightarrow> (\<exists>t'. wf_set s' t' \<and> set (vals s' (inord t')) = ?A - {x})"
    by blast
  have q: "Contains s' x = Some False \<and>
        (\<exists>xs'. All_s s' = Some (Inr xs') \<and> set xs' = ?A - {x}) \<and>
        (x \<in> ?A \<longrightarrow> Len s' = Len s - 1)" if "res = Inr s'" for s'
  proof -
    from p that obtain t' where w': "wf_set s' t'"
      and v: "set (vals s' (inord t')) = ?A - {x}" by blast
    have "Len s' = Len s - 1" if xin: "x \<in> ?A"
    proof -
      from xin have "card (?A - {x}) = card ?A - 1" by (simp add: card_Diff_singleton)
      moreover from xin have "0 < card ?A" by (auto simp: card_gt_0_iff)
      ultimately have "int (card (?A - {x})) = int (card ?A) - 1" by simp
      with wf_Len [OF w] wf_Len [OF w'] v show ?thesis by simp
    qed
    moreover have "Contains s' x = Some False" using Contains_ok [OF w', of x] v by simp
    moreover have "\<exists>xs'. All_s s' = Some (Inr xs') \<and> set xs' = ?A - {x}" using All_ok [OF w'] v by simp
    ultimately show ?thesis by blast
  qed
  have "Remove s x = Some res \<and> Contains s x = Some (x \<in> ?A) \<and> All_s s = Some (Inr (vals s (inord t))) \<and>
        (\<not> (x \<in> ?A) \<longrightarrow> res = Inr s) \<and>
        (\<forall>s'. res = Inr s' \<longrightarrow>
              Contains s' x = Some False \<and>
              (\<exists>xs'. All_s s' = Some (Inr xs') \<and> set xs' = ?A - {x}) \<and>
              ((x \<in> ?A) \<longrightarrow> Len s' = Len s - 1))"
    using r a Contains_ok [OF w, of x] All_ok [OF w] q by blast
  then show ?thesis by blast
qed

section \<open>The contracts of the operations\<close>

text \<open>
  The sets of the statements below are the sets that a client can hold: those reached from
  \<^verbatim>\<open>New\<close> by calls that all returned, \<open>run z (New z) ops = Some (Inr s)\<close>.
\<close>

text \<open>
  C3. On a set reached from \<^verbatim>\<open>New\<close>, \<^verbatim>\<open>Insert(x)\<close> returns, and afterwards \<^verbatim>\<open>x\<close> is a
  member and the values are those of before and \<^verbatim>\<open>x\<close>. When \<^verbatim>\<open>x\<close> was a member the set
  is the same in every field; when it was not, \<^verbatim>\<open>Len\<close> is one more.
\<close>

theorem Insert_contract:
  fixes s :: "'a::linorder Set"
  assumes "run z (New z) ops = Some (Inr s)"
  shows "\<exists>s' b xs xs'. Insert s x = Some (Inr s') \<and> Contains s x = Some b \<and>
           Contains s' x = Some True \<and> All_s s = Some (Inr xs) \<and> All_s s' = Some (Inr xs') \<and>
           set xs' = insert x (set xs) \<and>
           (if b then s' = s else Len s' = Len s + 1)"
proof -
  from reachable_wf [OF assms] obtain t where w: "wf_set s t" by blast
  from Insert_ok [OF w, of x] obtain s' t' where i: "Insert s x = Some (Inr s')" and w': "wf_set s' t'"
    and v: "set (vals s' (inord t')) = insert x (set (vals s (inord t)))"
    and e: "x \<in> set (vals s (inord t)) \<longrightarrow> s' = s" by blast
  have "x \<notin> set (vals s (inord t)) \<Longrightarrow> Len s' = Len s + 1"
    using wf_Len [OF w] wf_Len [OF w'] v by simp
  with i e v Contains_ok [OF w, of x] Contains_ok [OF w', of x] All_ok [OF w] All_ok [OF w']
  show ?thesis by auto
qed

theorem Insert_contract_witness:
  "run 0 (New 0) [Ins 1, Ins 2, Ins 3, Ins 4, Rem 1] = Some (Inr set_2_3_4) \<and>
   Contains set_2_3_4 5 = Some False \<and>
   (\<exists>s' xs'. Insert set_2_3_4 5 = Some (Inr s') \<and> Contains s' 5 = Some True \<and>
      All_s s' = Some (Inr xs') \<and> set xs' = {2, 3, 4, 5} \<and> Len s' = 4)"
  using Insert_contract [OF run_set_2_3_4, of 5] run_set_2_3_4
  by (auto simp: Contains_set_2_3_4 All_set_2_3_4 Len_set_2_3_4)

text \<open>
  C5. On a set reached from \<^verbatim>\<open>New\<close>, \<^verbatim>\<open>All\<close> returns, and the sequence that it yields
  increases strictly.
\<close>

theorem All_strictly_increasing:
  fixes s :: "'a::linorder Set"
  assumes "run z (New z) ops = Some (Inr s)"
  shows "\<exists>xs. All_s s = Some (Inr xs) \<and> sorted_wrt (<) xs"
proof -
  from reachable_wf [OF assms] obtain t where w: "wf_set s t" by blast
  from All_ok [OF w] w show ?thesis by (simp add: wf_set_def)
qed

theorem All_strictly_increasing_witness:
  "run 0 (New 0) [Ins 1, Ins 2, Ins 3, Ins 4, Rem 1] = Some (Inr set_2_3_4) \<and>
   All_s set_2_3_4 = Some (Inr [2, 3, 4]) \<and> sorted_wrt (<) [2, 3, 4 :: int]"
  using All_strictly_increasing [OF run_set_2_3_4] run_set_2_3_4
  by (simp add: All_set_2_3_4)

text \<open>
  C6. On a set reached from \<^verbatim>\<open>New\<close>, \<^verbatim>\<open>Contains(x)\<close> and \<^verbatim>\<open>All\<close> return, and
  \<^verbatim>\<open>Contains(x)\<close> is true exactly when \<^verbatim>\<open>x\<close> is in the sequence that \<^verbatim>\<open>All\<close> yields.
\<close>

theorem Contains_iff_All:
  fixes s :: "'a::linorder Set"
  assumes "run z (New z) ops = Some (Inr s)"
  shows "\<exists>b xs. Contains s x = Some b \<and> All_s s = Some (Inr xs) \<and> b = (x \<in> set xs)"
proof -
  from reachable_wf [OF assms] obtain t where w: "wf_set s t" by blast
  from Contains_ok [OF w, of x] All_ok [OF w] show ?thesis by simp
qed

theorem Contains_iff_All_witness:
  "run 0 (New 0) [Ins 1, Ins 2, Ins 3, Ins 4, Rem 1] = Some (Inr set_2_3_4) \<and>
   Contains set_2_3_4 3 = Some True \<and> All_s set_2_3_4 = Some (Inr [2, 3, 4]) \<and>
   True = (3 \<in> set [2, 3, 4 :: int])"
  using Contains_iff_All [OF run_set_2_3_4, of 3] run_set_2_3_4
  by (simp add: All_set_2_3_4 Contains_set_2_3_4)

text \<open>
  C7. On a set reached from \<^verbatim>\<open>New\<close>, the calls \<^verbatim>\<open>Insert(x); Insert(x)\<close> have the same
  outcome as the call \<^verbatim>\<open>Insert(x)\<close>, and the calls \<^verbatim>\<open>Remove(x); Remove(x)\<close> the same
  outcome as the call \<^verbatim>\<open>Remove(x)\<close>: the same set in every field, or for \<^verbatim>\<open>Remove\<close> the
  panic of the first call.
\<close>

theorem Insert_Remove_idempotent:
  fixes s :: "'a::linorder Set"
  assumes "run z (New z) ops = Some (Inr s)"
  shows "run z s [Ins x, Ins x] = run z s [Ins x] \<and>
         run z s [Rem x, Rem x] = run z s [Rem x]"
proof -
  from reachable_wf [OF assms] obtain t where w: "wf_set s t" by blast
  from Insert_ok [OF w, of x] obtain s' t' where i: "Insert s x = Some (Inr s')" and w': "wf_set s' t'"
    and v: "set (vals s' (inord t')) = insert x (set (vals s (inord t)))" by blast
  from Insert_ok [OF w', of x] v have "Insert s' x = Some (Inr s')" by auto
  with i have ins: "run z s [Ins x, Ins x] = run z s [Ins x]" by simp
  from Remove_ok [OF w, of x] obtain res where r: "Remove s x = Some res"
    and p: "\<forall>s'. res = Inr s' \<longrightarrow>
              (\<exists>t'. wf_set s' t' \<and> set (vals s' (inord t')) = set (vals s (inord t)) - {x})"
    by blast
  have "run z s [Rem x, Rem x] = run z s [Rem x]"
  proof (cases res)
    case (Inl e)
    with r show ?thesis by simp
  next
    case (Inr s1)
    with p obtain t1 where w1: "wf_set s1 t1"
      and v1: "set (vals s1 (inord t1)) = set (vals s (inord t)) - {x}" by blast
    from Remove_ok [OF w1, of x] v1 have "Remove s1 x = Some (Inr s1)" by auto
    with r Inr show ?thesis by simp
  qed
  with ins show ?thesis by simp
qed

theorem Insert_Remove_idempotent_witness:
  "run 0 (New 0) [Ins 1, Ins 2, Ins 3, Ins 4, Rem 1] = Some (Inr set_2_3_4) \<and>
   run 0 set_2_3_4 [Ins 5, Ins 5] = run 0 set_2_3_4 [Ins 5] \<and>
   run 0 set_2_3_4 [Rem 4, Rem 4] = run 0 set_2_3_4 [Rem 4]"
  using Insert_Remove_idempotent [OF run_set_2_3_4, of 5]
    Insert_Remove_idempotent [OF run_set_2_3_4, of 4] run_set_2_3_4
  by simp

text \<open>
  C8. On a set reached from \<^verbatim>\<open>New\<close>: when the set is empty (\<^verbatim>\<open>All\<close> yields nothing),
  \<^verbatim>\<open>Min\<close> and \<^verbatim>\<open>Max\<close> return the zero value \<open>d\<close> of the element type and \<^verbatim>\<open>false\<close>;
  otherwise \<^verbatim>\<open>Min\<close> returns the least and \<^verbatim>\<open>Max\<close> the greatest of the values that
  \<^verbatim>\<open>All\<close> yields, each with \<^verbatim>\<open>true\<close>.
\<close>

theorem Min_Max_contract:
  fixes s :: "'a::linorder Set"
  assumes "run z (New z) ops = Some (Inr s)"
  shows "\<exists>xs. All_s s = Some (Inr xs) \<and>
           (if xs = [] then Min_s d s = Some (d, False) \<and> Max_s d s = Some (d, False)
            else Min_s d s = Some (Min (set xs), True) \<and> Max_s d s = Some (Max (set xs), True))"
proof -
  from reachable_wf [OF assms] obtain t where w: "wf_set s t" by blast
  let ?xs = "vals s (inord t)"
  have e: "(?xs = []) = (inord t = [])" by (simp add: vals_def)
  have st: "sorted_wrt (<) ?xs" using w by (simp add: wf_set_def)
  show ?thesis
  proof (cases "inord t = []")
    case True
    with All_ok [OF w] Min_ok [OF w, of d] Max_ok [OF w, of d] e show ?thesis by simp
  next
    case False
    with e have ne: "?xs \<noteq> []" by simp
    from sorted_hd_Min [OF st ne] sorted_last_Max [OF st ne] ne False
      All_ok [OF w] Min_ok [OF w, of d] Max_ok [OF w, of d]
    show ?thesis by simp
  qed
qed

theorem Min_Max_contract_witness:
  "run 0 (New 0) [Ins 1, Ins 2, Ins 3, Ins 4, Rem 1] = Some (Inr set_2_3_4) \<and>
   All_s set_2_3_4 = Some (Inr [2, 3, 4]) \<and>
   Min_s 0 set_2_3_4 = Some (Min (set [2, 3, 4]), True) \<and>
   Max_s 0 set_2_3_4 = Some (Max (set [2, 3, 4]), True) \<and>
   run 0 (New 0) [] = Some (Inr (New (0::int))) \<and> All_s (New (0::int)) = Some (Inr []) \<and>
   Min_s 0 (New (0::int)) = Some (0, False) \<and> Max_s 0 (New (0::int)) = Some (0, False)"
proof -
  from Min_Max_contract [OF run_set_2_3_4, of 0]
  have "Min_s 0 set_2_3_4 = Some (Min (set [2, 3, 4]), True) \<and>
        Max_s 0 set_2_3_4 = Some (Max (set [2, 3, 4]), True)"
    by (simp only: All_set_2_3_4 option.inject sum.inject simp_thms ex_simps list.distinct if_False)
  moreover from Min_Max_contract [OF run_Nil_New, of "0::int" 0]
  have "Min_s 0 (New (0::int)) = Some (0, False) \<and> Max_s 0 (New (0::int)) = Some (0, False)"
    by (simp only: All_New option.inject sum.inject simp_thms ex_simps if_True)
  ultimately show ?thesis
    by (simp only: run_set_2_3_4 All_set_2_3_4 All_New run_Nil_New simp_thms)
qed

text \<open>
  C9. On a set reached from \<^verbatim>\<open>New\<close> by the calls \<open>ops\<close>, \<^verbatim>\<open>Len\<close> is the length of the
  sequence that \<^verbatim>\<open>All\<close> yields, and it is the number of the values inserted and not
  removed since; these values are the values that \<^verbatim>\<open>All\<close> yields.
\<close>

theorem Len_correct:
  fixes s :: "'a::linorder Set"
  assumes "run z (New z) ops = Some (Inr s)"
  shows "\<exists>xs. All_s s = Some (Inr xs) \<and> Len s = int (length xs) \<and>
           Len s = int (card (apply_ops {} ops)) \<and> set xs = apply_ops {} ops"
proof -
  from reachable_wf [OF assms] obtain t where w: "wf_set s t"
    and v: "set (vals s (inord t)) = apply_ops {} ops" by blast
  from wf_distinct_vals [OF w] have "card (set (vals s (inord t))) = length (vals s (inord t))"
    by (rule distinct_card)
  with wf_Len [OF w] v All_ok [OF w] show ?thesis by simp
qed

theorem Len_correct_witness:
  "run 0 (New 0) [Ins 1, Ins 2, Ins 3, Ins 4, Rem 1] = Some (Inr set_2_3_4) \<and>
   All_s set_2_3_4 = Some (Inr [2, 3, 4]) \<and> Len set_2_3_4 = int (length [2, 3, 4 :: int]) \<and>
   Len set_2_3_4 = int (card (apply_ops {} [Ins 1, Ins 2, Ins 3, Ins 4, Rem (1::int)])) \<and>
   set [2, 3, 4] = apply_ops {} [Ins 1, Ins 2, Ins 3, Ins 4, Rem (1::int)]"
  using Len_correct [OF run_set_2_3_4] run_set_2_3_4
  by (simp only: All_set_2_3_4 option.inject sum.inject simp_thms ex_simps) simp

text \<open>
  C10. On a set reached from \<^verbatim>\<open>New\<close> and for \<^verbatim>\<open>y\<close> other than \<^verbatim>\<open>x\<close>: \<^verbatim>\<open>Insert(x)\<close>
  returns a set on which \<^verbatim>\<open>Contains(y)\<close> is what it was before; \<^verbatim>\<open>Remove(x)\<close> ends, and
  on the set that it returns, when it returns one, \<^verbatim>\<open>Contains(y)\<close> is what it was before.
\<close>

theorem Contains_frame:
  fixes s :: "'a::linorder Set"
  assumes "run z (New z) ops = Some (Inr s)" and "y \<noteq> x"
  shows "\<exists>b s' res. Contains s y = Some b \<and>
           Insert s x = Some (Inr s') \<and> Contains s' y = Some b \<and>
           Remove s x = Some res \<and> (\<forall>s''. res = Inr s'' \<longrightarrow> Contains s'' y = Some b)"
proof -
  from reachable_wf [OF assms(1)] obtain t where w: "wf_set s t" by blast
  from Insert_ok [OF w, of x] obtain s' t' where i: "Insert s x = Some (Inr s')" and w': "wf_set s' t'"
    and v: "set (vals s' (inord t')) = insert x (set (vals s (inord t)))" by blast
  from Remove_ok [OF w, of x] obtain res where r: "Remove s x = Some res"
    and p: "\<forall>s'. res = Inr s' \<longrightarrow>
              (\<exists>t'. wf_set s' t' \<and> set (vals s' (inord t')) = set (vals s (inord t)) - {x})"
    by blast
  have c': "Contains s' y = Contains s y"
    using Contains_ok [OF w, of y] Contains_ok [OF w', of y] v assms(2) by simp
  have "Contains s'' y = Contains s y" if "res = Inr s''" for s''
  proof -
    from p that obtain t'' where w'': "wf_set s'' t''"
      and v'': "set (vals s'' (inord t'')) = set (vals s (inord t)) - {x}" by blast
    show ?thesis
      using Contains_ok [OF w, of y] Contains_ok [OF w'', of y] v'' assms(2) by simp
  qed
  with i r c' Contains_ok [OF w, of y] show ?thesis by simp
qed

theorem Contains_frame_witness:
  "run 0 (New 0) [Ins 1, Ins 2, Ins 3, Ins 4, Rem 1] = Some (Inr set_2_3_4) \<and>
   (3::int) \<noteq> 4 \<and> Contains set_2_3_4 3 = Some True \<and>
   (\<exists>s'. Insert set_2_3_4 4 = Some (Inr s') \<and> Contains s' 3 = Some True) \<and>
   (\<exists>s''. Remove set_2_3_4 4 = Some (Inr s'') \<and> Contains s'' 3 = Some True)"
  using Contains_frame [OF run_set_2_3_4, of 3 4] run_set_2_3_4 Remove_set_2_3_4
  by (auto simp: Contains_set_2_3_4)

end
